theory Spec2Isabelle
  imports Complex_Main "HOL-Library.Sublist" "HOL-Library.AList" "HOL-Library.Product_Lexorder"
begin

section \<open>Notification service (notification-service/server.js)\<close>

subsection \<open>Values handled by the service\<close>

text \<open>
  What \<^verbatim>\<open>JSON.parse\<close> can return. A number is read as an exact real (the
  service never computes with it). An object is an association list read as a finite map
  from property names to values: writing a property that exists replaces its value, a new
  one is added.
\<close>

datatype json =
    JNull
  | JBool bool
  | JNum real
  | JStr string
  | JArr "json list"
  | JObj "(string \<times> json) list"

type_synonym jobject = "(string \<times> json) list"

text \<open>JavaScript truthiness, as tested by \<^verbatim>\<open>if (!metadata)\<close>.\<close>

fun truthy :: "json \<Rightarrow> bool" where
  "truthy JNull = False"
| "truthy (JBool b) = b"
| "truthy (JNum x) = (x \<noteq> 0)"
| "truthy (JStr s) = (s \<noteq> [])"
| "truthy (JArr xs) = True"
| "truthy (JObj kvs) = True"

text \<open>Decimal property names of array and string indices.\<close>

definition digit_char :: "nat \<Rightarrow> char" where
  "digit_char d = ''0123456789'' ! d"

fun index_key :: "nat \<Rightarrow> string" where
  "index_key n = (if n < 10 then [digit_char n] else index_key (n div 10) @ [digit_char (n mod 10)])"

declare index_key.simps [simp del]

text \<open>
  The own enumerable properties an object spread \<^verbatim>\<open>{...metadata}\<close> copies: the
  properties of an object, the indexed elements of an array, the indexed characters of
  a string, nothing for a number or a boolean.
\<close>

fun spread :: "json \<Rightarrow> jobject" where
  "spread (JObj kvs) = kvs"
| "spread (JArr xs) = zip (map index_key [0..<length xs]) xs"
| "spread (JStr s) = zip (map index_key [0..<length s]) (map (\<lambda>c. JStr [c]) s)"
| "spread JNull = []"
| "spread (JBool b) = []"
| "spread (JNum x) = []"

text \<open>The two messages handed to \<^verbatim>\<open>JSON.stringify\<close> and sent to a client.\<close>

datatype message =
    Initial "jobject list" string
  | NewTile jobject

subsection \<open>The runtime the service calls into\<close>

text \<open>
  Node's \<^verbatim>\<open>path\<close> and \<^verbatim>\<open>fs\<close> modules and \<^verbatim>\<open>JSON.parse\<close> are not code
  of the service: they are parameters. A call that throws returns \<open>Inl\<close>.
\<close>

datatype exn = SystemError | SyntaxError

record runtime =
  path_basename :: "string \<Rightarrow> string"
  path_dirname :: "string \<Rightarrow> string"
  path_join :: "string \<Rightarrow> string \<Rightarrow> string"
  existsSync :: "string \<Rightarrow> bool"
  readFileSync :: "string \<Rightarrow> exn + string"
  JSON_parse :: "string \<Rightarrow> exn + json"

text \<open>\<^verbatim>\<open>String.prototype.replace\<close> with a string pattern: the first occurrence only.\<close>

fun replace_first :: "string \<Rightarrow> string \<Rightarrow> string \<Rightarrow> string" where
  "replace_first pat rep [] = (if pat = [] then rep else [])"
| "replace_first pat rep (c # cs) =
     (if prefix pat (c # cs) then rep @ drop (length pat) (c # cs)
      else c # replace_first pat rep cs)"

subsection \<open>State: the broadcast set, the registry, the sockets\<close>

datatype ready_state = CONNECTING | OPEN | CLOSING | CLOSED

text \<open>A socket: its state and, in order, every message \<^verbatim>\<open>send\<close> was called with.\<close>

record socket =
  readyState :: ready_state
  sent :: "message list"

text \<open>
  \<open>clients\<close> is the \<^verbatim>\<open>Set<WebSocket>\<close> (socket references in insertion order),
  \<open>tilesMetadata\<close> the \<^verbatim>\<open>Map<string, Object>\<close> (entries in insertion order),
  \<open>sockets\<close> the store the references point into.
\<close>

record server =
  clients :: "nat list"
  tilesMetadata :: "(string \<times> jobject) list"
  sockets :: "nat \<Rightarrow> socket"

definition set_add :: "'a \<Rightarrow> 'a list \<Rightarrow> 'a list" where
  "set_add x xs = (if x \<in> set xs then xs else xs @ [x])"

definition set_delete :: "'a \<Rightarrow> 'a list \<Rightarrow> 'a list" where
  "set_delete x xs = removeAll x xs"

definition map_set :: "'k \<Rightarrow> 'v \<Rightarrow> ('k \<times> 'v) list \<Rightarrow> ('k \<times> 'v) list" where
  "map_set k v m = AList.update k v m"

definition map_get :: "('k \<times> 'v) list \<Rightarrow> 'k \<Rightarrow> 'v option" where
  "map_get m k = map_of m k"

definition map_values :: "('k \<times> 'v) list \<Rightarrow> 'v list" where
  "map_values m = map snd m"

definition map_size :: "('k \<times> 'v) list \<Rightarrow> nat" where
  "map_size m = length m"

definition initial_server :: "(nat \<Rightarrow> socket) \<Rightarrow> server" where
  "initial_server store = \<lparr>clients = [], tilesMetadata = [], sockets = store\<rparr>"

subsection \<open>WebSocket handlers and broadcast\<close>

definition ws_send :: "nat \<Rightarrow> message \<Rightarrow> server \<Rightarrow> server" where
  "ws_send ws data s =
     s\<lparr>sockets := (sockets s)(ws := (sockets s ws)\<lparr>sent := sent (sockets s ws) @ [data]\<rparr>)\<rparr>"

text \<open>\<^verbatim>\<open>wss.on('connection', (ws) => ...)\<close>, lines 131-159.\<close>

definition on_connection :: "string \<Rightarrow> nat \<Rightarrow> server \<Rightarrow> server" where
  "on_connection TITILER_PUBLIC_URL ws s =
     (let s1 = s\<lparr>clients := set_add ws (clients s)\<rparr>;
          currentTiles = map_values (tilesMetadata s1)
      in ws_send ws (Initial currentTiles TITILER_PUBLIC_URL) s1)"

text \<open>The \<^verbatim>\<open>close\<close> and \<^verbatim>\<open>error\<close> handlers of a socket, lines 148-158.\<close>

definition on_close :: "nat \<Rightarrow> server \<Rightarrow> server" where
  "on_close ws s = s\<lparr>clients := set_delete ws (clients s)\<rparr>"

definition on_error :: "nat \<Rightarrow> server \<Rightarrow> server" where
  "on_error ws s = s\<lparr>clients := set_delete ws (clients s)\<rparr>"

text \<open>\<^verbatim>\<open>broadcast\<close>, lines 173-180: the loop over the set, in insertion order.\<close>

fun broadcast_loop :: "message \<Rightarrow> nat list \<Rightarrow> server \<Rightarrow> server" where
  "broadcast_loop data [] s = s"
| "broadcast_loop data (client # rest) s =
     broadcast_loop data rest
       (if readyState (sockets s client) = OPEN then ws_send client data s else s)"

definition broadcast :: "message \<Rightarrow> server \<Rightarrow> server" where
  "broadcast msg s = broadcast_loop msg (clients s) s"

subsection \<open>Tile processing\<close>

text \<open>\<^verbatim>\<open>readTileMetadata\<close>, lines 195-202: any exception becomes \<^verbatim>\<open>null\<close>.\<close>

definition readTileMetadata :: "runtime \<Rightarrow> string \<Rightarrow> json" where
  "readTileMetadata rt jsonPath =
     (case readFileSync rt jsonPath of
        Inl e \<Rightarrow> JNull
      | Inr content \<Rightarrow> (case JSON_parse rt content of Inl e \<Rightarrow> JNull | Inr v \<Rightarrow> v))"

text \<open>The constants \<^verbatim>\<open>processNewTile\<close> computes from the path, lines 216-226.\<close>

definition tileId_of :: "runtime \<Rightarrow> string \<Rightarrow> string" where
  "tileId_of rt filePath = replace_first ''.json'' [] (path_basename rt filePath)"

definition tifFilename_of :: "runtime \<Rightarrow> string \<Rightarrow> string" where
  "tifFilename_of rt filePath = tileId_of rt filePath @ ''.tif''"

definition tifPath_of :: "runtime \<Rightarrow> string \<Rightarrow> string" where
  "tifPath_of rt filePath = path_join rt (path_dirname rt filePath) (tifFilename_of rt filePath)"

text \<open>The record \<^verbatim>\<open>tileData\<close>, lines 246-255; \<open>now\<close> is what \<^verbatim>\<open>Date.now()\<close> returns.\<close>

definition tileData_of :: "string \<Rightarrow> runtime \<Rightarrow> int \<Rightarrow> string \<Rightarrow> jobject" where
  "tileData_of TITILER_PUBLIC_URL rt now filePath =
     AList.update ''timestamp'' (JNum (of_int now))
       (AList.update ''tilejsonUrl''
          (JStr (TITILER_PUBLIC_URL @ ''/cog/tilejson.json?url=/data/'' @ tifFilename_of rt filePath))
          (AList.update ''tileUrl''
             (JStr (TITILER_PUBLIC_URL @ ''/cog/tiles/WebMercatorQuad/{z}/{x}/{y}?url=/data/''
                      @ tifFilename_of rt filePath))
             (AList.update ''id'' (JStr (tileId_of rt filePath))
                (spread (readTileMetadata rt filePath)))))"

text \<open>\<^verbatim>\<open>processNewTile\<close>, lines 215-265.\<close>

definition processNewTile :: "string \<Rightarrow> runtime \<Rightarrow> int \<Rightarrow> string \<Rightarrow> server \<Rightarrow> server" where
  "processNewTile TITILER_PUBLIC_URL rt now filePath s =
     (if \<not> suffix ''.json'' (path_basename rt filePath) then s
      else if \<not> existsSync rt (tifPath_of rt filePath) then s
      else if \<not> truthy (readTileMetadata rt filePath) then s
      else
        (let tileData = tileData_of TITILER_PUBLIC_URL rt now filePath;
             s1 = s\<lparr>tilesMetadata := map_set (tileId_of rt filePath) tileData (tilesMetadata s)\<rparr>
         in broadcast (NewTile tileData) s1))"

text \<open>The three gates of \<^verbatim>\<open>processNewTile\<close>, lines 219, 230 and 236, passed together.\<close>

definition accepted :: "runtime \<Rightarrow> string \<Rightarrow> bool" where
  "accepted rt filePath =
     (suffix ''.json'' (path_basename rt filePath) \<and> existsSync rt (tifPath_of rt filePath)
      \<and> truthy (readTileMetadata rt filePath))"

subsection \<open>REST endpoint for one tile\<close>

text \<open>
  An Express response: the status and the JSON body. \<^verbatim>\<open>GET /api/tiles/:id\<close>, lines
  354-361; the handler reads the registry and returns the state as it found it. A stored
  record is an object, and an object is truthy: \<^verbatim>\<open>if (tile)\<close> tests whether
  \<^verbatim>\<open>get\<close> returned \<^verbatim>\<open>undefined\<close>.
\<close>

record response =
  status :: nat
  body :: json

definition get_tile_by_id :: "string \<Rightarrow> server \<Rightarrow> response \<times> server" where
  "get_tile_by_id id_param s =
     (case map_get (tilesMetadata s) id_param of
        Some tile \<Rightarrow> (\<lparr>status = 200, body = JObj tile\<rparr>, s)
      | None \<Rightarrow> (\<lparr>status = 404, body = JObj [(''error'', JStr ''Tile not found'')]\<rparr>, s))"

subsection \<open>Events of the service\<close>

text \<open>
  What the event loop delivers, one at a time: a new connection, the \<^verbatim>\<open>close\<close> or
  \<^verbatim>\<open>error\<close> of a socket, a change of a socket's \<^verbatim>\<open>readyState\<close> (made by the
  WebSocket library), and the watcher's \<^verbatim>\<open>add\<close> and \<^verbatim>\<open>change\<close> events
  (lines 313-319), each with the file system and the clock as they are at that moment.
\<close>

datatype server_event =
    Connection nat
  | Close nat
  | SocketError nat
  | ReadyState nat ready_state
  | Add runtime int string
  | Change runtime int string

fun handle_event :: "string \<Rightarrow> server_event \<Rightarrow> server \<Rightarrow> server" where
  "handle_event url (Connection ws) s = on_connection url ws s"
| "handle_event url (Close ws) s = on_close ws s"
| "handle_event url (SocketError ws) s = on_error ws s"
| "handle_event url (ReadyState ws r) s =
     s\<lparr>sockets := (sockets s)(ws := (sockets s ws)\<lparr>readyState := r\<rparr>)\<rparr>"
| "handle_event url (Add rt now filePath) s = processNewTile url rt now filePath s"
| "handle_event url (Change rt now filePath) s = processNewTile url rt now filePath s"

definition run_server :: "string \<Rightarrow> server_event list \<Rightarrow> server \<Rightarrow> server" where
  "run_server url evs s = fold (handle_event url) evs s"

text \<open>
  The registry's keys are unique and every stored record carries its key as \<^verbatim>\<open>id\<close>;
  the broadcast set holds every socket once.
\<close>

definition registry_ok :: "(string \<times> jobject) list \<Rightarrow> bool" where
  "registry_ok m =
     (distinct (map fst m) \<and> (\<forall>(k, v) \<in> set m. map_of v ''id'' = Some (JStr k)))"

definition server_ok :: "server \<Rightarrow> bool" where
  "server_ok s = (distinct (clients s) \<and> registry_ok (tilesMetadata s))"

section \<open>Client hook (hooks/useTileWebSocket.ts, types/tile.ts)\<close>

subsection \<open>Types\<close>

text \<open>A TypeScript \<^verbatim>\<open>number\<close> is read as an exact real.\<close>

record TileBounds =
  min_lon :: real
  min_lat :: real
  max_lon :: real
  max_lat :: real

text \<open>\<^verbatim>\<open>TileMetadata\<close>; the field \<^verbatim>\<open>id\<close> is \<open>tile_id\<close> here.\<close>

record TileMetadata =
  tile_id :: string
  filename :: string
  row :: real
  col :: real
  bounds :: TileBounds
  bbox :: "real \<times> real \<times> real \<times> real"
  width :: real
  height :: real
  tileUrl :: string
  tilejsonUrl :: string
  timestamp :: real

datatype message_type = INITIAL | NEW_TILE

text \<open>\<^verbatim>\<open>WebSocketMessage\<close>: \<open>None\<close> is an absent optional field.\<close>

record WebSocketMessage =
  msg_type :: message_type
  msg_tiles :: "TileMetadata list option"
  msg_tile :: "TileMetadata option"
  msg_titilerUrl :: "string option"

record LonLat =
  lon :: real
  lat :: real

record DroneState =
  position :: "LonLat option"
  isScanning :: bool
  targetTile :: "TileMetadata option"

text \<open>The lines the hook writes to the console.\<close>

datatype console_line =
    DroneFlyingTo string real real
  | ScanningComplete string
  | ErrorParsingMessage

text \<open>
  A pending \<^verbatim>\<open>setTimeout\<close>: its delay in milliseconds and the closure to run. The
  closure of line 141 has captured \<^verbatim>\<open>tile\<close>.
\<close>

datatype callback = ScanDone TileMetadata | SettleDone

type_synonym timer = "nat \<times> callback"

text \<open>
  The hook's state (\<^verbatim>\<open>useState\<close>) and refs (\<^verbatim>\<open>useRef\<close>), the timers it has set
  and the console. \<open>pendingTiles\<close> is \<^verbatim>\<open>pendingTilesRef.current\<close>, \<open>processing\<close> is
  \<^verbatim>\<open>processingRef.current\<close>.
\<close>

record client =
  tiles :: "(string \<times> TileMetadata) list"
  visibleTiles :: "(string \<times> TileMetadata) list"
  titilerUrl :: string
  droneState :: DroneState
  pendingTiles :: "TileMetadata list"
  processing :: bool
  timers :: "timer list"
  console :: "console_line list"

definition initial_client :: "string \<Rightarrow> client" where
  "initial_client DEFAULT_TITILER_URL =
     \<lparr>tiles = [], visibleTiles = [], titilerUrl = DEFAULT_TITILER_URL,
      droneState = \<lparr>position = None, isScanning = False, targetTile = None\<rparr>,
      pendingTiles = [], processing = False, timers = [], console = []\<rparr>"

text \<open>\<^verbatim>\<open>new Map(pairs)\<close>: the pairs are set one after the other.\<close>

definition new_Map :: "('k \<times> 'v) list \<Rightarrow> ('k \<times> 'v) list" where
  "new_Map pairs = fold (\<lambda>(k, v) m. map_set k v m) pairs []"

subsection \<open>The animation queue\<close>

text \<open>\<^verbatim>\<open>processNextTile\<close>, lines 113-163, up to the first \<^verbatim>\<open>setTimeout\<close>.\<close>

definition processNextTile :: "nat \<Rightarrow> client \<Rightarrow> client" where
  "processNextTile SCANNING_DURATION c =
     (if processing c \<or> length (pendingTiles c) = 0 then c
      else
        (case pendingTiles c of
           [] \<Rightarrow> c
         | tile # rest \<Rightarrow>
             (let (b0, b1, b2, b3) = bbox tile;
                  centerLon = (b1 + b3) / 2;
                  centerLat = (b0 + b2) / 2
              in c\<lparr>processing := True,
                   pendingTiles := rest,
                   console := console c @ [DroneFlyingTo (tile_id tile) centerLon centerLat],
                   droneState :=
                     \<lparr>position = Some \<lparr>lon = centerLon, lat = centerLat\<rparr>,
                      isScanning = True, targetTile = Some tile\<rparr>,
                   timers := timers c @ [(SCANNING_DURATION, ScanDone tile)]\<rparr>)))"

text \<open>The two timer closures, lines 141-162 and 158-161.\<close>

fun run_callback :: "nat \<Rightarrow> callback \<Rightarrow> client \<Rightarrow> client" where
  "run_callback SCANNING_DURATION (ScanDone tile) c =
     c\<lparr>console := console c @ [ScanningComplete (tile_id tile)],
       visibleTiles := map_set (tile_id tile) tile (visibleTiles c),
       droneState := (droneState c)\<lparr>isScanning := False\<rparr>,
       timers := timers c @ [(300, SettleDone)]\<rparr>"
| "run_callback SCANNING_DURATION SettleDone c =
     processNextTile SCANNING_DURATION (c\<lparr>processing := False\<rparr>)"

text \<open>
  The \<open>k\<close>-th pending timer fires: it leaves the list and its closure runs. Which
  pending timer fires first is left open, so every order real time can produce is covered.
\<close>

definition fire_timer :: "nat \<Rightarrow> nat \<Rightarrow> client \<Rightarrow> client" where
  "fire_timer SCANNING_DURATION k c =
     (if k < length (timers c)
      then run_callback SCANNING_DURATION (snd (timers c ! k))
             (c\<lparr>timers := take k (timers c) @ drop (Suc k) (timers c)\<rparr>)
      else c)"

subsection \<open>Message handler\<close>

text \<open>The \<^verbatim>\<open>'initial'\<close> branch of \<^verbatim>\<open>ws.onmessage\<close>, lines 205-240.\<close>

definition on_initial :: "WebSocketMessage \<Rightarrow> client \<Rightarrow> client" where
  "on_initial message c =
     (let c1 = (case msg_titilerUrl message of
                  None \<Rightarrow> c
                | Some u \<Rightarrow> if u \<noteq> [] then c\<lparr>titilerUrl := u\<rparr> else c)
      in case msg_tiles message of
           None \<Rightarrow> c1
         | Some ts \<Rightarrow>
             if length ts > 0 then
               (let sorted = sort_key (\<lambda>t. (row t, col t)) ts;
                    c2 = c1\<lparr>tiles := new_Map (map (\<lambda>tile. (tile_id tile, tile)) sorted)\<rparr>;
                    c3 = c2\<lparr>visibleTiles := new_Map (map (\<lambda>tile. (tile_id tile, tile)) sorted)\<rparr>
                in case sorted of
                     [] \<Rightarrow> c3
                   | _ # _ \<Rightarrow>
                       (let lastTile = last sorted;
                            (b0, b1, b2, b3) = bbox lastTile;
                            centerLon = (b1 + b3) / 2;
                            centerLat = (b0 + b2) / 2
                        in c3\<lparr>droneState :=
                                \<lparr>position = Some \<lparr>lon = centerLon, lat = centerLat\<rparr>,
                                 isScanning = False, targetTile = Some lastTile\<rparr>\<rparr>))
             else c1)"

text \<open>The \<^verbatim>\<open>'new_tile'\<close> branch, lines 241-256.\<close>

definition on_new_tile :: "nat \<Rightarrow> TileMetadata \<Rightarrow> client \<Rightarrow> client" where
  "on_new_tile SCANNING_DURATION tile c =
     processNextTile SCANNING_DURATION
       (c\<lparr>tiles := map_set (tile_id tile) tile (tiles c),
          pendingTiles := pendingTiles c @ [tile]\<rparr>)"

text \<open>
  \<^verbatim>\<open>ws.onmessage\<close>, lines 201-260. \<open>None\<close> is a payload \<^verbatim>\<open>JSON.parse\<close> throws on:
  the \<^verbatim>\<open>catch\<close> logs it.
\<close>

definition ws_onmessage :: "nat \<Rightarrow> WebSocketMessage option \<Rightarrow> client \<Rightarrow> client" where
  "ws_onmessage SCANNING_DURATION data c =
     (case data of
        None \<Rightarrow> c\<lparr>console := console c @ [ErrorParsingMessage]\<rparr>
      | Some message \<Rightarrow>
          if msg_type message = INITIAL then on_initial message c
          else
            (case msg_tile message of
               Some tile \<Rightarrow>
                 if msg_type message = NEW_TILE then on_new_tile SCANNING_DURATION tile c else c
             | None \<Rightarrow> c))"

subsection \<open>Events of the client and the drone's phases\<close>

datatype client_event = Message "WebSocketMessage option" | Timeout nat

fun client_step :: "nat \<Rightarrow> client_event \<Rightarrow> client \<Rightarrow> client" where
  "client_step D (Message data) c = ws_onmessage D data c"
| "client_step D (Timeout k) c = fire_timer D k c"

definition run_client :: "nat \<Rightarrow> client_event list \<Rightarrow> client \<Rightarrow> client" where
  "run_client D es c = fold (client_step D) es c"

text \<open>
  What the drone shows: \<open>Scanning\<close> with the target while \<^verbatim>\<open>isScanning\<close> is set,
  \<open>Idle\<close> otherwise. \<open>phases\<close> lists it before the first event and after each one;
  \<open>transitions\<close> keeps the changes.
\<close>

datatype phase = Idle | Scanning "TileMetadata option"

definition phase_of :: "DroneState \<Rightarrow> phase" where
  "phase_of d = (if isScanning d then Scanning (targetTile d) else Idle)"

fun phases :: "nat \<Rightarrow> client_event list \<Rightarrow> client \<Rightarrow> phase list" where
  "phases D [] c = [phase_of (droneState c)]"
| "phases D (e # es) c = phase_of (droneState c) # phases D es (client_step D e c)"

definition transitions :: "nat \<Rightarrow> client_event list \<Rightarrow> client \<Rightarrow> phase list" where
  "transitions D es c = remdups_adj (phases D es c)"

text \<open>A ChangeEvent as the client receives it, and the tiles a run of events delivers.\<close>

definition new_tile_message :: "TileMetadata \<Rightarrow> WebSocketMessage" where
  "new_tile_message t =
     \<lparr>msg_type = NEW_TILE, msg_tiles = None, msg_tile = Some t, msg_titilerUrl = None\<rparr>"

fun animation_event :: "client_event \<Rightarrow> bool" where
  "animation_event (Message (Some m)) = (msg_type m = NEW_TILE)"
| "animation_event (Message None) = True"
| "animation_event (Timeout k) = True"

fun arrival :: "client_event \<Rightarrow> TileMetadata list" where
  "arrival (Message (Some m)) =
     (case msg_tile m of Some t \<Rightarrow> if msg_type m = NEW_TILE then [t] else [] | None \<Rightarrow> [])"
| "arrival (Message None) = []"
| "arrival (Timeout k) = []"

definition arrivals :: "client_event list \<Rightarrow> TileMetadata list" where
  "arrivals es = concat (map arrival es)"

fun flown_to :: "console_line list \<Rightarrow> string list" where
  "flown_to [] = []"
| "flown_to (DroneFlyingTo i x y # ls) = i # flown_to ls"
| "flown_to (l # ls) = flown_to ls"

definition cycles :: "TileMetadata list \<Rightarrow> phase list" where
  "cycles ts = concat (map (\<lambda>t. [Scanning (Some t), Idle]) ts)"

text \<open>
  The three situations of the animation queue, with the tiles \<open>arr\<close> received so far and
  the drone's transitions \<open>tr\<close> so far: nothing in progress and nothing waiting; tile
  \<open>t\<close> being scanned, its scan timer pending; the settle delay running. In each, the
  tiles flown to, the one in progress and the queue make up the arrivals in their order.
\<close>

definition queue_idle :: "client \<Rightarrow> TileMetadata list \<Rightarrow> phase list \<Rightarrow> bool" where
  "queue_idle c arr tr =
     (\<not> processing c \<and> timers c = [] \<and> pendingTiles c = [] \<and> \<not> isScanning (droneState c)
      \<and> flown_to (console c) = map tile_id arr \<and> tr = Idle # cycles arr)"

definition queue_scanning ::
  "nat \<Rightarrow> client \<Rightarrow> TileMetadata list \<Rightarrow> phase list \<Rightarrow> TileMetadata list \<Rightarrow> TileMetadata \<Rightarrow> bool" where
  "queue_scanning D c arr tr finished t =
     (processing c \<and> timers c = [(D, ScanDone t)] \<and> isScanning (droneState c)
      \<and> targetTile (droneState c) = Some t \<and> arr = finished @ t # pendingTiles c
      \<and> flown_to (console c) = map tile_id (finished @ [t])
      \<and> tr = Idle # cycles finished @ [Scanning (Some t)])"

definition queue_settling :: "client \<Rightarrow> TileMetadata list \<Rightarrow> phase list \<Rightarrow> TileMetadata list \<Rightarrow> bool" where
  "queue_settling c arr tr finished =
     (processing c \<and> timers c = [(300, SettleDone)] \<and> \<not> isScanning (droneState c)
      \<and> arr = finished @ pendingTiles c
      \<and> flown_to (console c) = map tile_id finished
      \<and> tr = Idle # cycles finished)"

definition queue_inv :: "nat \<Rightarrow> client \<Rightarrow> TileMetadata list \<Rightarrow> phase list \<Rightarrow> bool" where
  "queue_inv D c arr tr =
     (queue_idle c arr tr
      \<or> (\<exists>finished t. queue_scanning D c arr tr finished t)
      \<or> (\<exists>finished. queue_settling c arr tr finished))"

text \<open>The transitions after one more phase has been observed.\<close>

definition observe :: "phase list \<Rightarrow> phase \<Rightarrow> phase list" where
  "observe tr p = (if last tr = p then tr else tr @ [p])"

section \<open>Sample data\<close>

text \<open>
  Node's \<^verbatim>\<open>path\<close> functions on an absolute, normalised POSIX path with no trailing
  slash, a file system given by its files and their contents, and a parser that knows two
  documents.
\<close>

definition posix_basename :: "string \<Rightarrow> string" where
  "posix_basename p = rev (takeWhile (\<lambda>c. c \<noteq> CHR ''/'') (rev p))"

definition posix_dirname :: "string \<Rightarrow> string" where
  "posix_dirname p = rev (drop 1 (dropWhile (\<lambda>c. c \<noteq> CHR ''/'') (rev p)))"

definition posix_join :: "string \<Rightarrow> string \<Rightarrow> string" where
  "posix_join d f = d @ ''/'' @ f"

definition sample_parse :: "string \<Rightarrow> exn + json" where
  \<open>sample_parse content =
     (if content = ''{"row":0,"col":0}'' then Inr (JObj [(''row'', JNum 0), (''col'', JNum 0)])
      else if content = ''null'' then Inr JNull
      else Inl SyntaxError)\<close>

definition sample_runtime :: "(string \<times> string) list \<Rightarrow> runtime" where
  "sample_runtime files =
     \<lparr>path_basename = posix_basename, path_dirname = posix_dirname, path_join = posix_join,
      existsSync = (\<lambda>p. p \<in> set (map fst files)),
      readFileSync = (\<lambda>p. case map_of files p of None \<Rightarrow> Inl SystemError | Some c \<Rightarrow> Inr c),
      JSON_parse = sample_parse\<rparr>"

definition sample_store :: "nat \<Rightarrow> socket" where
  "sample_store = (\<lambda>w. \<lparr>readyState = OPEN, sent = []\<rparr>)"

definition sample_url :: string where
  "sample_url = ''http://localhost:8000''"

definition sidecar_path :: string where
  "sidecar_path = ''/data/tiles/tile_0_0.json''"

definition raster_path :: string where
  "raster_path = ''/data/tiles/tile_0_0.tif''"

definition sidecar_only :: runtime where
  \<open>sidecar_only = sample_runtime [(sidecar_path, ''{"row":0,"col":0}'')]\<close>

definition both_files :: runtime where
  \<open>both_files = sample_runtime [(sidecar_path, ''{"row":0,"col":0}''), (raster_path, ''II*'')]\<close>

definition broken_sidecar :: runtime where
  \<open>broken_sidecar = sample_runtime [(sidecar_path, ''{"row":0,''), (raster_path, ''II*'')]\<close>

definition sample_record :: "int \<Rightarrow> jobject" where
  "sample_record now =
     [(''row'', JNum 0), (''col'', JNum 0), (''id'', JStr ''tile_0_0''),
      (''tileUrl'', JStr ''http://localhost:8000/cog/tiles/WebMercatorQuad/{z}/{x}/{y}?url=/data/tile_0_0.tif''),
      (''tilejsonUrl'', JStr ''http://localhost:8000/cog/tilejson.json?url=/data/tile_0_0.tif''),
      (''timestamp'', JNum (of_int now))]"

text \<open>
  A service with socket 1 connected; then the tile registered at time 1000; then the
  sidecar reported changed at time 2000.
\<close>

definition connected :: server where
  "connected = run_server sample_url [Connection 1] (initial_server sample_store)"

definition registered_once :: server where
  "registered_once = run_server sample_url [Add both_files 1000 sidecar_path] connected"

definition registered_twice :: server where
  "registered_twice = run_server sample_url [Change both_files 2000 sidecar_path] registered_once"

text \<open>
  A Snapshot as the client receives it, and a client that has received the ChangeEvents
  for tiles A and B: A is being scanned, B waits in the queue.
\<close>

definition snapshot_message :: "TileMetadata list \<Rightarrow> string \<Rightarrow> WebSocketMessage" where
  "snapshot_message ts url =
     \<lparr>msg_type = INITIAL, msg_tiles = Some ts, msg_tile = None, msg_titilerUrl = Some url\<rparr>"

text \<open>Sockets 1 and 2 connected, socket 2 closing, socket 3 never connected.\<close>

definition two_clients :: server where
  "two_clients = run_server sample_url [Connection 1, Connection 2, ReadyState 2 CLOSING]
                   (initial_server sample_store)"

definition sample_tile :: "string \<Rightarrow> real \<Rightarrow> real \<Rightarrow> TileMetadata" where
  "sample_tile i r c =
     \<lparr>tile_id = i, filename = i @ ''.tif'', row = r, col = c,
      bounds = \<lparr>min_lon = 17.08, min_lat = 32.99, max_lon = 17.18, max_lat = 33.10\<rparr>,
      bbox = (32.99, 17.08, 33.10, 17.18), width = 1097, height = 1104,
      tileUrl = [], tilejsonUrl = [], timestamp = 0\<rparr>"

definition tile_A :: TileMetadata where
  "tile_A = sample_tile ''tile_0_0'' 0 0"

definition tile_B :: TileMetadata where
  "tile_B = sample_tile ''tile_0_1'' 0 1"

definition tile_C :: TileMetadata where
  "tile_C = sample_tile ''tile_0_2'' 0 2"

definition mid_animation :: client where
  "mid_animation =
     run_client 2000
       [Message (Some (new_tile_message tile_A)), Message (Some (new_tile_message tile_B))]
       (initial_client sample_url)"

section \<open>Properties of the notification service\<close>

subsection \<open>Sending and broadcasting\<close>

lemmas sample_defs =
  sample_runtime_def sample_parse_def posix_basename_def posix_dirname_def posix_join_def
  sample_store_def sample_url_def sidecar_path_def raster_path_def both_files_def
  sample_record_def
  initial_server_def tileId_of_def tifFilename_of_def tifPath_of_def tileData_of_def
  readTileMetadata_def suffix_to_prefix

lemma ws_send_fields [simp]:
  "clients (ws_send w d s) = clients s"
  "tilesMetadata (ws_send w d s) = tilesMetadata s"
  "readyState (sockets (ws_send w d s) v) = readyState (sockets s v)"
  "sent (sockets (ws_send w d s) v) = (if v = w then sent (sockets s v) @ [d] else sent (sockets s v))"
  by (simp_all add: ws_send_def)

lemma broadcast_loop_fields [simp]:
  "clients (broadcast_loop d cs s) = clients s"
  "tilesMetadata (broadcast_loop d cs s) = tilesMetadata s"
  "readyState (sockets (broadcast_loop d cs s) v) = readyState (sockets s v)"
  by (induction cs arbitrary: s) simp_all

lemma broadcast_loop_sent_notin:
  "v \<notin> set cs \<Longrightarrow> sent (sockets (broadcast_loop d cs s) v) = sent (sockets s v)"
  by (induction cs arbitrary: s) auto

lemma broadcast_loop_sent_distinct:
  "distinct cs \<Longrightarrow>
   sent (sockets (broadcast_loop d cs s) v) =
     (if v \<in> set cs \<and> readyState (sockets s v) = OPEN then sent (sockets s v) @ [d]
      else sent (sockets s v))"
  by (induction cs arbitrary: s) (auto simp: broadcast_loop_sent_notin)

lemma broadcast_loop_sent_grows:
  "\<exists>n. sent (sockets (broadcast_loop d cs s) v) = sent (sockets s v) @ replicate n d"
proof (induction cs arbitrary: s)
  case Nil
  show ?case by simp
next
  case (Cons c cs)
  let ?s1 = "if readyState (sockets s c) = OPEN then ws_send c d s else s"
  obtain n where n: "sent (sockets (broadcast_loop d cs ?s1) v) = sent (sockets ?s1 v) @ replicate n d"
    using Cons.IH by blast
  show ?case
  proof (cases "readyState (sockets s c) = OPEN \<and> v = c")
    case True
    then have "sent (sockets (broadcast_loop d (c # cs) s) v) = sent (sockets s v) @ replicate (Suc n) d"
      using n by (simp add: replicate_append_same)
    then show ?thesis by blast
  next
    case False
    then have "sent (sockets (broadcast_loop d (c # cs) s) v) = sent (sockets s v) @ replicate n d"
      using n by auto
    then show ?thesis by blast
  qed
qed

lemma processNewTile_rejected:
  "\<not> accepted rt p \<Longrightarrow> processNewTile url rt now p s = s"
  by (auto simp: accepted_def processNewTile_def)

lemma processNewTile_accepted:
  "accepted rt p \<Longrightarrow>
   processNewTile url rt now p s =
     broadcast_loop (NewTile (tileData_of url rt now p)) (clients s)
       (s\<lparr>tilesMetadata := AList.update (tileId_of rt p) (tileData_of url rt now p) (tilesMetadata s)\<rparr>)"
  by (simp add: accepted_def processNewTile_def broadcast_def map_set_def Let_def)

lemma tileData_id: "map_of (tileData_of url rt now p) ''id'' = Some (JStr (tileId_of rt p))"
  by (simp add: tileData_of_def update_conv')

lemma update_keys_present:
  "k \<in> fst ` set m \<Longrightarrow> map fst (AList.update k v m) = map fst m"
  by (induction m) auto

lemma update_length_present:
  "k \<in> fst ` set m \<Longrightarrow> length (AList.update k v m) = length m"
  using update_keys_present [of k m v] by (metis length_map)

lemma update_absent: "k \<notin> fst ` set m \<Longrightarrow> AList.update k v m = m @ [(k, v)]"
  by (induction m) auto

lemma registry_ok_update:
  assumes "registry_ok m" "map_of v ''id'' = Some (JStr k)"
  shows "registry_ok (AList.update k v m)"
proof -
  have sub: "set (AList.update k v m) \<subseteq> insert (k, v) (set m)"
    by (induction m) auto
  have "\<forall>(k', v') \<in> insert (k, v) (set m). map_of v' ''id'' = Some (JStr k')"
    using assms by (auto simp: registry_ok_def)
  then have "\<forall>(k', v') \<in> set (AList.update k v m). map_of v' ''id'' = Some (JStr k')"
    using sub by blast
  moreover have "distinct (map fst (AList.update k v m))"
    using assms(1) by (simp add: registry_ok_def distinct_update)
  ultimately show ?thesis by (simp add: registry_ok_def)
qed

lemma count_key_distinct:
  "distinct (map fst xs) \<Longrightarrow> k \<in> fst ` set xs \<Longrightarrow> length (filter (\<lambda>e. fst e = k) xs) = 1"
proof (induction xs)
  case Nil
  then show ?case by simp
next
  case (Cons a xs)
  show ?case
  proof (cases "fst a = k")
    case True
    then have "k \<notin> fst ` set xs" using Cons.prems(1) by auto
    then have "filter (\<lambda>e. fst e = k) xs = []" by (auto simp: filter_empty_conv)
    with True show ?thesis by simp
  next
    case False
    then show ?thesis using Cons by auto
  qed
qed

lemma update_key_present: "k \<in> fst ` set (AList.update k v m)"
  by (induction m) auto

lemma count_key_update:
  "distinct (map fst m) \<Longrightarrow> length (filter (\<lambda>e. fst e = k) (AList.update k v m)) = 1"
  by (rule count_key_distinct) (simp_all add: distinct_update update_key_present)

lemma set_add_distinct: "distinct xs \<Longrightarrow> distinct (set_add x xs)"
  by (simp add: set_add_def)

lemma set_delete_distinct: "distinct xs \<Longrightarrow> distinct (set_delete x xs)"
  by (simp add: set_delete_def distinct_removeAll)

lemma server_ok_handle: "server_ok s \<Longrightarrow> server_ok (handle_event url e s)"
proof (cases e)
  case (Add rt now p)
  assume ok: "server_ok s"
  show ?thesis
  proof (cases "accepted rt p")
    case True
    then show ?thesis using ok Add
      by (simp add: processNewTile_accepted server_ok_def registry_ok_update tileData_id)
  next
    case False
    then show ?thesis using ok Add by (simp add: processNewTile_rejected)
  qed
next
  case (Change rt now p)
  assume ok: "server_ok s"
  show ?thesis
  proof (cases "accepted rt p")
    case True
    then show ?thesis using ok Change
      by (simp add: processNewTile_accepted server_ok_def registry_ok_update tileData_id)
  next
    case False
    then show ?thesis using ok Change by (simp add: processNewTile_rejected)
  qed
qed (simp_all add: server_ok_def on_connection_def on_close_def on_error_def
       set_add_distinct set_delete_distinct)

lemma server_ok_run: "server_ok s \<Longrightarrow> server_ok (run_server url evs s)"
  unfolding run_server_def by (induction evs arbitrary: s) (simp_all add: server_ok_handle)

lemma server_ok_initial: "server_ok (initial_server store)"
  by (simp add: server_ok_def registry_ok_def initial_server_def)


lemma registry_values_distinct: "registry_ok m \<Longrightarrow> distinct (map_values m)"
proof -
  assume ok: "registry_ok m"
  have "inj_on snd (set m)"
  proof (rule inj_onI)
    fix a b assume a: "a \<in> set m" and b: "b \<in> set m" and e: "snd a = snd b"
    have "map_of (snd a) ''id'' = Some (JStr (fst a))" using ok a by (auto simp: registry_ok_def)
    moreover have "map_of (snd b) ''id'' = Some (JStr (fst b))" using ok b by (auto simp: registry_ok_def)
    ultimately have "fst a = fst b" using e by simp
    then show "a = b" using e by (simp add: prod_eq_iff)
  qed
  moreover have "distinct m" using ok by (simp add: registry_ok_def distinct_map)
  ultimately show ?thesis by (simp add: map_values_def distinct_map)
qed

lemma processNewTile_sent_grows:
  "\<exists>ts. sent (sockets (processNewTile url rt now p s) ws) = sent (sockets s ws) @ map NewTile ts"
proof (cases "accepted rt p")
  case True
  let ?s1 = "s\<lparr>tilesMetadata := AList.update (tileId_of rt p) (tileData_of url rt now p) (tilesMetadata s)\<rparr>"
  obtain n where "sent (sockets (broadcast_loop (NewTile (tileData_of url rt now p)) (clients s) ?s1) ws) =
      sent (sockets ?s1 ws) @ replicate n (NewTile (tileData_of url rt now p))"
    using broadcast_loop_sent_grows by blast
  then have "sent (sockets (processNewTile url rt now p s) ws) =
      sent (sockets s ws) @ map NewTile (replicate n (tileData_of url rt now p))"
    using True by (simp add: processNewTile_accepted)
  then show ?thesis by blast
next
  case False
  then have "sent (sockets (processNewTile url rt now p s) ws) = sent (sockets s ws) @ map NewTile []"
    by (simp add: processNewTile_rejected)
  then show ?thesis by blast
qed

lemma handle_event_sent:
  "e \<noteq> Connection ws \<Longrightarrow>
   \<exists>ts. sent (sockets (handle_event url e s) ws) = sent (sockets s ws) @ map NewTile ts"
proof (cases e)
  case (Connection w)
  assume "e \<noteq> Connection ws"
  then have "w \<noteq> ws" using Connection by simp
  then have "sent (sockets (handle_event url e s) ws) = sent (sockets s ws) @ map NewTile []"
    using Connection by (simp add: on_connection_def Let_def)
  then show ?thesis by blast
next
  case (Close w)
  then have "sent (sockets (handle_event url e s) ws) = sent (sockets s ws) @ map NewTile []"
    by (simp add: on_close_def)
  then show ?thesis by blast
next
  case (SocketError w)
  then have "sent (sockets (handle_event url e s) ws) = sent (sockets s ws) @ map NewTile []"
    by (simp add: on_error_def)
  then show ?thesis by blast
next
  case (ReadyState w r)
  then have "sent (sockets (handle_event url e s) ws) = sent (sockets s ws) @ map NewTile []"
    by simp
  then show ?thesis by blast
next
  case (Add rt now p)
  then show ?thesis using processNewTile_sent_grows by simp
next
  case (Change rt now p)
  then show ?thesis using processNewTile_sent_grows by simp
qed

lemma run_server_sent:
  "Connection ws \<notin> set evs \<Longrightarrow>
   \<exists>ts. sent (sockets (run_server url evs s) ws) = sent (sockets s ws) @ map NewTile ts"
proof (induction evs arbitrary: s)
  case Nil
  have "sent (sockets (run_server url [] s) ws) = sent (sockets s ws) @ map NewTile []"
    by (simp add: run_server_def)
  then show ?case by blast
next
  case (Cons e evs)
  then have ne: "e \<noteq> Connection ws" and rest: "Connection ws \<notin> set evs" by auto
  obtain ts1 where 1: "sent (sockets (handle_event url e s) ws) = sent (sockets s ws) @ map NewTile ts1"
    using handle_event_sent [OF ne] by blast
  obtain ts2 where 2: "sent (sockets (run_server url evs (handle_event url e s)) ws)
      = sent (sockets (handle_event url e s) ws) @ map NewTile ts2"
    using Cons.IH [OF rest] by blast
  have "sent (sockets (run_server url (e # evs) s) ws) = sent (sockets s ws) @ map NewTile (ts1 @ ts2)"
    using 1 2 by (simp add: run_server_def)
  then show ?case by blast
qed

lemmas run_defs = run_server_def processNewTile_def on_connection_def on_close_def on_error_def
  broadcast_def map_set_def map_get_def map_values_def map_size_def set_add_def set_delete_def
  ws_send_def Let_def

lemma connected_eval:
  "clients connected = [1]" "tilesMetadata connected = []"
  "sent (sockets connected w) = (if w = 1 then [Initial [] sample_url] else [])"
  "readyState (sockets connected w) = OPEN"
  by (simp_all add: connected_def run_defs sample_defs)

lemma both_files_eval:
  "accepted both_files sidecar_path"
  "tileId_of both_files sidecar_path = ''tile_0_0''"
  "tileData_of sample_url both_files now sidecar_path = sample_record now"
  by (simp_all add: accepted_def sample_defs)

lemma registered_once_eval:
  "clients registered_once = [1]"
  "tilesMetadata registered_once = [(''tile_0_0'', sample_record 1000)]"
  "sent (sockets registered_once w) =
     (if w = 1 then [Initial [] sample_url, NewTile (sample_record 1000)] else [])"
  "readyState (sockets registered_once w) = OPEN"
  by (simp_all add: registered_once_def run_server_def processNewTile_accepted both_files_eval connected_eval)

lemma registered_twice_eval:
  "clients registered_twice = [1]"
  "tilesMetadata registered_twice = [(''tile_0_0'', sample_record 2000)]"
  "sent (sockets registered_twice w) =
     (if w = 1 then [Initial [] sample_url, NewTile (sample_record 1000), NewTile (sample_record 2000)] else [])"
  by (simp_all add: registered_twice_def run_server_def processNewTile_accepted both_files_eval registered_once_eval)

lemma sidecar_only_eval:
  "\<not> existsSync sidecar_only (tifPath_of sidecar_only sidecar_path)"
  by (simp add: sidecar_only_def sample_defs)

lemma raster_path_eval: "\<not> suffix ''.json'' (path_basename both_files raster_path)"
  by (simp add: sample_defs)

lemma connected_ok: "server_ok connected"
  by (simp add: connected_def server_ok_run server_ok_initial)

lemma registered_once_ok: "server_ok registered_once"
  by (simp add: registered_once_def server_ok_run connected_ok)

lemma two_clients_eval:
  "clients two_clients = [1, 2]"
  "tilesMetadata two_clients = []"
  "sent (sockets two_clients w) = (if w = 1 \<or> w = 2 then [Initial [] sample_url] else [])"
  "readyState (sockets two_clients w) = (if w = 2 then CLOSING else OPEN)"
  by (simp_all add: two_clients_def run_defs sample_defs)

subsection \<open>Registration\<close>

text \<open>
  C1, as the code has it. \<^verbatim>\<open>processNewTile\<close> does not test whether the id is
  registered. Called again for a sidecar whose id is in the registry (raster present,
  sidecar parsed to a truthy value), it keeps the registry's ids, their order and its
  size, and leaves every other record alone; the record under that id is replaced by a
  freshly built one whose \<^verbatim>\<open>timestamp\<close> is the current time, and every open client of
  the broadcast set is sent one more \<^verbatim>\<open>new_tile\<close> message with the new record.
\<close>

theorem reregistration_overwrites:
  assumes "accepted rt p" and "tileId_of rt p \<in> fst ` set (tilesMetadata s)"
    and "distinct (clients s)"
  shows "map fst (tilesMetadata (processNewTile url rt now p s)) = map fst (tilesMetadata s)
    \<and> map_size (tilesMetadata (processNewTile url rt now p s)) = map_size (tilesMetadata s)
    \<and> map_get (tilesMetadata (processNewTile url rt now p s)) (tileId_of rt p)
        = Some (tileData_of url rt now p)
    \<and> map_of (tileData_of url rt now p) ''timestamp'' = Some (JNum (of_int now))
    \<and> (\<forall>k. k \<noteq> tileId_of rt p \<longrightarrow>
          map_get (tilesMetadata (processNewTile url rt now p s)) k = map_get (tilesMetadata s) k)
    \<and> (\<forall>w \<in> set (clients s). readyState (sockets s w) = OPEN \<longrightarrow>
          sent (sockets (processNewTile url rt now p s) w)
            = sent (sockets s w) @ [NewTile (tileData_of url rt now p)])"
proof -
  have reg: "tilesMetadata (processNewTile url rt now p s)
      = AList.update (tileId_of rt p) (tileData_of url rt now p) (tilesMetadata s)"
    using assms(1) by (simp add: processNewTile_accepted)
  have keys: "map fst (tilesMetadata (processNewTile url rt now p s)) = map fst (tilesMetadata s)"
    using assms(2) by (simp add: reg update_keys_present)
  have size: "map_size (tilesMetadata (processNewTile url rt now p s)) = map_size (tilesMetadata s)"
    using assms(2) by (simp add: reg map_size_def update_length_present)
  have stored: "map_get (tilesMetadata (processNewTile url rt now p s)) (tileId_of rt p)
      = Some (tileData_of url rt now p)"
    by (simp add: reg map_get_def update_conv')
  have stamp: "map_of (tileData_of url rt now p) ''timestamp'' = Some (JNum (of_int now))"
    by (simp add: tileData_of_def update_conv')
  have others: "\<forall>k. k \<noteq> tileId_of rt p \<longrightarrow>
      map_get (tilesMetadata (processNewTile url rt now p s)) k = map_get (tilesMetadata s) k"
    by (simp add: reg map_get_def update_conv')
  have sends: "\<forall>w \<in> set (clients s). readyState (sockets s w) = OPEN \<longrightarrow>
      sent (sockets (processNewTile url rt now p s) w)
        = sent (sockets s w) @ [NewTile (tileData_of url rt now p)]"
    using assms(1,3) by (simp add: processNewTile_accepted broadcast_loop_sent_distinct)
  show ?thesis using keys size stored stamp others sends by blast
qed

theorem reregistration_overwrites_witness:
  "map fst (tilesMetadata registered_twice) = [''tile_0_0'']
   \<and> map_size (tilesMetadata registered_twice) = 1
   \<and> map_get (tilesMetadata registered_twice) ''tile_0_0'' = Some (sample_record 2000)
   \<and> map_of (sample_record 2000) ''timestamp'' = Some (JNum 2000)
   \<and> map_get (tilesMetadata registered_twice) ''tile_9_9'' = map_get (tilesMetadata registered_once) ''tile_9_9''
   \<and> sent (sockets registered_twice 1)
       = [Initial [] sample_url, NewTile (sample_record 1000), NewTile (sample_record 2000)]"
proof -
  have twice: "registered_twice = processNewTile sample_url both_files 2000 sidecar_path registered_once"
    by (simp add: registered_twice_def run_server_def)
  have "accepted both_files sidecar_path"
    and "tileId_of both_files sidecar_path \<in> fst ` set (tilesMetadata registered_once)"
    and "distinct (clients registered_once)"
    by (simp_all add: both_files_eval registered_once_eval)
  from reregistration_overwrites [OF this, of sample_url 2000]
  show ?thesis
    by (simp add: twice both_files_eval registered_once_eval map_size_def map_get_def)
qed

text \<open>
  C1 as stated fails: the tile registered at time 1000 and reported changed at time 2000
  is stored with the timestamp 2000, and socket 1 has been sent two \<^verbatim>\<open>new_tile\<close>
  messages for it.
\<close>

theorem reregistration_counterexample:
  "map_get (tilesMetadata registered_once) ''tile_0_0'' = Some (sample_record 1000)
   \<and> map_get (tilesMetadata registered_twice) ''tile_0_0'' = Some (sample_record 2000)
   \<and> sample_record 2000 \<noteq> sample_record 1000
   \<and> sent (sockets registered_once 1) = [Initial [] sample_url, NewTile (sample_record 1000)]
   \<and> sent (sockets registered_twice 1)
       = [Initial [] sample_url, NewTile (sample_record 1000), NewTile (sample_record 2000)]"
  by (simp add: registered_once_eval registered_twice_eval map_get_def sample_record_def)

text \<open>
  C2, as the code has it. An event for a sidecar whose raster does not exist changes
  nothing. An event for a path whose name does not end in \<^verbatim>\<open>.json\<close>, the raster's
  own event among them, changes nothing either. With the raster on disk, an event for the
  sidecar path whose content parses to a truthy value performs one registration: the
  registry then holds exactly one record under the tile id, the one just built, and each
  open client of the broadcast set is sent one \<^verbatim>\<open>new_tile\<close> message.
\<close>

theorem pairing_gate:
  "(\<not> existsSync rt (tifPath_of rt p) \<longrightarrow> processNewTile url rt now p s = s)
   \<and> (\<not> suffix ''.json'' (path_basename rt p) \<longrightarrow> processNewTile url rt now p s = s)
   \<and> (accepted rt p \<and> server_ok s \<longrightarrow>
        length (filter (\<lambda>e. fst e = tileId_of rt p) (tilesMetadata (processNewTile url rt now p s))) = 1
        \<and> map_get (tilesMetadata (processNewTile url rt now p s)) (tileId_of rt p)
            = Some (tileData_of url rt now p)
        \<and> (\<forall>w \<in> set (clients s). readyState (sockets s w) = OPEN \<longrightarrow>
              sent (sockets (processNewTile url rt now p s) w)
                = sent (sockets s w) @ [NewTile (tileData_of url rt now p)]))"
proof (intro conjI impI)
  assume "\<not> existsSync rt (tifPath_of rt p)"
  then show "processNewTile url rt now p s = s" by (simp add: processNewTile_def)
next
  assume "\<not> suffix ''.json'' (path_basename rt p)"
  then show "processNewTile url rt now p s = s" by (simp add: processNewTile_def)
next
  assume a: "accepted rt p \<and> server_ok s"
  then show "length (filter (\<lambda>e. fst e = tileId_of rt p) (tilesMetadata (processNewTile url rt now p s))) = 1"
    by (simp add: processNewTile_accepted server_ok_def registry_ok_def count_key_update)
next
  assume a: "accepted rt p \<and> server_ok s"
  then show "map_get (tilesMetadata (processNewTile url rt now p s)) (tileId_of rt p)
      = Some (tileData_of url rt now p)"
    by (simp add: processNewTile_accepted map_get_def update_conv')
next
  assume a: "accepted rt p \<and> server_ok s"
  then show "\<forall>w \<in> set (clients s). readyState (sockets s w) = OPEN \<longrightarrow>
      sent (sockets (processNewTile url rt now p s) w)
        = sent (sockets s w) @ [NewTile (tileData_of url rt now p)]"
    by (simp add: processNewTile_accepted server_ok_def broadcast_loop_sent_distinct)
qed

theorem pairing_gate_witness:
  "processNewTile sample_url sidecar_only 1000 sidecar_path connected = connected
   \<and> processNewTile sample_url both_files 2000 raster_path connected = connected
   \<and> tilesMetadata (processNewTile sample_url both_files 3000 sidecar_path connected)
       = [(''tile_0_0'', sample_record 3000)]
   \<and> sent (sockets (processNewTile sample_url both_files 3000 sidecar_path connected) 1)
       = [Initial [] sample_url, NewTile (sample_record 3000)]"
  using pairing_gate [of sidecar_only sidecar_path sample_url 1000 connected]
    pairing_gate [of both_files raster_path sample_url 2000 connected]
    pairing_gate [of both_files sidecar_path sample_url 3000 connected]
  by (simp add: sidecar_only_eval raster_path_eval both_files_eval connected_ok connected_eval
        processNewTile_accepted)

text \<open>
  C2 as stated fails: the sidecar is reported while the raster is missing, then the
  raster appears and the watcher reports it. The raster is on disk, the registry is still
  empty and socket 1 has only its snapshot.
\<close>

theorem raster_arrival_counterexample:
  "existsSync both_files raster_path
   \<and> tilesMetadata (run_server sample_url
        [Add sidecar_only 1000 sidecar_path, Add both_files 2000 raster_path] connected) = []
   \<and> sent (sockets (run_server sample_url
        [Add sidecar_only 1000 sidecar_path, Add both_files 2000 raster_path] connected) 1)
       = [Initial [] sample_url]"
proof -
  have "accepted both_files sidecar_path" by (rule both_files_eval)
  have 1: "\<not> accepted sidecar_only sidecar_path"
    using sidecar_only_eval by (simp add: accepted_def)
  have 2: "\<not> accepted both_files raster_path"
    using raster_path_eval by (simp add: accepted_def)
  have "existsSync both_files raster_path" by (simp add: sample_defs)
  then show ?thesis
    using 1 2 by (simp add: run_server_def processNewTile_rejected connected_eval)
qed

subsection \<open>Snapshot and change events\<close>

text \<open>
  C3. A session that opens on a fresh socket is sent one \<^verbatim>\<open>initial\<close> message; its
  tiles are the registry's records, each once, as many as the registry's size, with the
  public TiTiler URL. Whatever events follow (the socket does not connect again), the
  snapshot stays the first message the session was sent and every later one is a
  \<^verbatim>\<open>new_tile\<close> message.
\<close>

theorem snapshot_on_connection:
  assumes "sent (sockets s ws) = []" and "server_ok s" and "Connection ws \<notin> set evs"
  shows "sent (sockets (on_connection url ws s) ws) = [Initial (map_values (tilesMetadata s)) url]
    \<and> length (map_values (tilesMetadata s)) = map_size (tilesMetadata s)
    \<and> set (map_values (tilesMetadata s)) = snd ` set (tilesMetadata s)
    \<and> distinct (map_values (tilesMetadata s))
    \<and> (\<exists>ts. sent (sockets (run_server url evs (on_connection url ws s)) ws)
            = Initial (map_values (tilesMetadata s)) url # map NewTile ts)"
proof -
  have first: "sent (sockets (on_connection url ws s) ws) = [Initial (map_values (tilesMetadata s)) url]"
    using assms(1) by (simp add: on_connection_def Let_def)
  have len: "length (map_values (tilesMetadata s)) = map_size (tilesMetadata s)"
    by (simp add: map_values_def map_size_def)
  have all: "set (map_values (tilesMetadata s)) = snd ` set (tilesMetadata s)"
    by (simp add: map_values_def)
  have nodup: "distinct (map_values (tilesMetadata s))"
    using assms(2) by (simp add: server_ok_def registry_values_distinct)
  obtain ts where "sent (sockets (run_server url evs (on_connection url ws s)) ws)
      = sent (sockets (on_connection url ws s) ws) @ map NewTile ts"
    using run_server_sent [OF assms(3)] by blast
  then have "sent (sockets (run_server url evs (on_connection url ws s)) ws)
      = Initial (map_values (tilesMetadata s)) url # map NewTile ts"
    using first by simp
  then have later: "\<exists>ts. sent (sockets (run_server url evs (on_connection url ws s)) ws)
      = Initial (map_values (tilesMetadata s)) url # map NewTile ts"
    by blast
  show ?thesis using first len all nodup later by blast
qed

theorem snapshot_on_connection_witness:
  "sent (sockets (on_connection sample_url 2 registered_once) 2)
      = [Initial [sample_record 1000] sample_url]
   \<and> map_size (tilesMetadata registered_once) = 1
   \<and> (\<exists>ts. sent (sockets (run_server sample_url [Change both_files 2000 sidecar_path, Close 1]
                (on_connection sample_url 2 registered_once)) 2)
         = Initial [sample_record 1000] sample_url # map NewTile ts)"
proof -
  have "sent (sockets registered_once 2) = []" and "server_ok registered_once"
    and "Connection 2 \<notin> set [Change both_files 2000 sidecar_path, Close 1]"
    by (simp_all add: registered_once_eval registered_once_ok)
  from snapshot_on_connection [OF this, of sample_url]
  show ?thesis by (simp add: registered_once_eval map_values_def map_size_def)
qed

text \<open>
  C4. At a registration, every socket that is in the broadcast set and open is sent
  exactly one message, the \<^verbatim>\<open>new_tile\<close> message with the record just stored; every
  other socket is sent nothing.
\<close>

theorem change_event_to_open_clients:
  assumes "accepted rt p" and "distinct (clients s)"
  shows "map_get (tilesMetadata (processNewTile url rt now p s)) (tileId_of rt p)
        = Some (tileData_of url rt now p)
    \<and> (\<forall>w. sent (sockets (processNewTile url rt now p s) w)
          = (if w \<in> set (clients s) \<and> readyState (sockets s w) = OPEN
             then sent (sockets s w) @ [NewTile (tileData_of url rt now p)]
             else sent (sockets s w)))"
  using assms
  by (simp add: processNewTile_accepted map_get_def update_conv' broadcast_loop_sent_distinct)

theorem change_event_to_open_clients_witness:
  "sent (sockets (processNewTile sample_url both_files 1000 sidecar_path two_clients) 1)
      = [Initial [] sample_url, NewTile (sample_record 1000)]
   \<and> sent (sockets (processNewTile sample_url both_files 1000 sidecar_path two_clients) 2)
      = [Initial [] sample_url]
   \<and> sent (sockets (processNewTile sample_url both_files 1000 sidecar_path two_clients) 3) = []
   \<and> map_get (tilesMetadata (processNewTile sample_url both_files 1000 sidecar_path two_clients))
        ''tile_0_0'' = Some (sample_record 1000)"
proof -
  have "accepted both_files sidecar_path" and "distinct (clients two_clients)"
    by (simp_all add: both_files_eval two_clients_eval)
  from change_event_to_open_clients [OF this, of sample_url 1000]
  show ?thesis by (simp add: both_files_eval two_clients_eval)
qed

subsection \<open>Failures\<close>

text \<open>
  C8. When the sidecar's content does not parse, \<^verbatim>\<open>readTileMetadata\<close> catches the
  exception and returns \<^verbatim>\<open>null\<close>, and \<^verbatim>\<open>processNewTile\<close> returns with the registry,
  the broadcast set and every socket as they were.
\<close>

theorem malformed_sidecar_dropped:
  assumes "readFileSync rt p = Inr content" and "JSON_parse rt content = Inl e"
  shows "readTileMetadata rt p = JNull \<and> processNewTile url rt now p s = s"
  using assms by (simp add: readTileMetadata_def processNewTile_def)

theorem malformed_sidecar_dropped_witness:
  \<open>readFileSync broken_sidecar sidecar_path = Inr ''{"row":0,''
   \<and> JSON_parse broken_sidecar ''{"row":0,'' = Inl SyntaxError
   \<and> existsSync broken_sidecar (tifPath_of broken_sidecar sidecar_path)
   \<and> readTileMetadata broken_sidecar sidecar_path = JNull
   \<and> processNewTile sample_url broken_sidecar 1000 sidecar_path connected = connected\<close>
proof -
  have \<open>readFileSync broken_sidecar sidecar_path = Inr ''{"row":0,''\<close>
    and \<open>JSON_parse broken_sidecar ''{"row":0,'' = Inl SyntaxError\<close>
    by (simp_all add: broken_sidecar_def sample_defs)
  from malformed_sidecar_dropped [OF this, of sample_url 1000 connected]
  show ?thesis by (simp add: broken_sidecar_def sample_defs)
qed

text \<open>
  C9. \<^verbatim>\<open>GET /api/tiles/:id\<close> answers 200 with the record stored under the id when
  there is one, 404 with an error body when there is none; it answers in both cases and
  leaves the state as it was.
\<close>

theorem tile_lookup_found_or_not_found:
  "(distinct (map fst (tilesMetadata s)) \<and> (i, tile) \<in> set (tilesMetadata s) \<longrightarrow>
       get_tile_by_id i s = (\<lparr>status = 200, body = JObj tile\<rparr>, s))
   \<and> (i \<notin> fst ` set (tilesMetadata s) \<longrightarrow>
       get_tile_by_id i s = (\<lparr>status = 404, body = JObj [(''error'', JStr ''Tile not found'')]\<rparr>, s))
   \<and> (status (fst (get_tile_by_id i s)) = 200 \<or> status (fst (get_tile_by_id i s)) = 404)
   \<and> snd (get_tile_by_id i s) = s"
proof (intro conjI impI)
  assume "distinct (map fst (tilesMetadata s)) \<and> (i, tile) \<in> set (tilesMetadata s)"
  then have "map_of (tilesMetadata s) i = Some tile" by simp
  then show "get_tile_by_id i s = (\<lparr>status = 200, body = JObj tile\<rparr>, s)"
    by (simp add: get_tile_by_id_def map_get_def)
next
  assume "i \<notin> fst ` set (tilesMetadata s)"
  then have "map_of (tilesMetadata s) i = None" by (simp add: map_of_eq_None_iff)
  then show "get_tile_by_id i s
      = (\<lparr>status = 404, body = JObj [(''error'', JStr ''Tile not found'')]\<rparr>, s)"
    by (simp add: get_tile_by_id_def map_get_def)
next
  show "status (fst (get_tile_by_id i s)) = 200 \<or> status (fst (get_tile_by_id i s)) = 404"
    by (simp add: get_tile_by_id_def split: option.split)
next
  show "snd (get_tile_by_id i s) = s"
    by (simp add: get_tile_by_id_def split: option.split)
qed

theorem tile_lookup_witness:
  "get_tile_by_id ''tile_0_0'' registered_once
      = (\<lparr>status = 200, body = JObj (sample_record 1000)\<rparr>, registered_once)
   \<and> get_tile_by_id ''tile_9_9'' registered_once
      = (\<lparr>status = 404, body = JObj [(''error'', JStr ''Tile not found'')]\<rparr>, registered_once)"
  using tile_lookup_found_or_not_found [of registered_once "''tile_0_0''" "sample_record 1000"]
    tile_lookup_found_or_not_found [of registered_once "''tile_9_9''" "[]"]
  by (simp add: registered_once_eval)

section \<open>Properties of the client hook\<close>

subsection \<open>Centre point and snapshots\<close>

lemmas tile_defs = sample_tile_def tile_A_def tile_B_def

lemma processNextTile_busy: "processing c \<Longrightarrow> processNextTile D c = c"
  by (simp add: processNextTile_def)

lemma processNextTile_empty: "pendingTiles c = [] \<Longrightarrow> processNextTile D c = c"
  by (simp add: processNextTile_def)

lemma processNextTile_start:
  assumes "\<not> processing c" and "pendingTiles c = tile # rest" and "bbox tile = (b0, b1, b2, b3)"
  shows "processNextTile D c =
     c\<lparr>processing := True, pendingTiles := rest,
       console := console c @ [DroneFlyingTo (tile_id tile) ((b1 + b3) / 2) ((b0 + b2) / 2)],
       droneState := \<lparr>position = Some \<lparr>lon = (b1 + b3) / 2, lat = (b0 + b2) / 2\<rparr>,
                      isScanning = True, targetTile = Some tile\<rparr>,
       timers := timers c @ [(D, ScanDone tile)]\<rparr>"
  using assms by (simp add: processNextTile_def Let_def)

text \<open>
  C7. The centre the client flies the drone to reads the bbox as [lat, lon, lat, lon]:
  longitude is the mean of elements 1 and 3, latitude the mean of elements 0 and 2. For
  the bbox [32.99, 17.08, 33.10, 17.18] it is (lon 17.13, lat 33.045), not the two
  averages the other way round.
\<close>

theorem center_from_bbox:
  assumes "\<not> processing c" and "pendingTiles c = tile # rest" and "bbox tile = (b0, b1, b2, b3)"
  shows "position (droneState (processNextTile D c)) = Some \<lparr>lon = (b1 + b3) / 2, lat = (b0 + b2) / 2\<rparr>
    \<and> targetTile (droneState (processNextTile D c)) = Some tile
    \<and> ((b0, b1, b2, b3) = (32.99, 17.08, 33.10, 17.18) \<longrightarrow>
          position (droneState (processNextTile D c)) = Some \<lparr>lon = 17.13, lat = 33.045\<rparr>
          \<and> position (droneState (processNextTile D c)) \<noteq> Some \<lparr>lon = 33.045, lat = 17.13\<rparr>)"
proof -
  have "processNextTile D c =
     c\<lparr>processing := True, pendingTiles := rest,
       console := console c @ [DroneFlyingTo (tile_id tile) ((b1 + b3) / 2) ((b0 + b2) / 2)],
       droneState := \<lparr>position = Some \<lparr>lon = (b1 + b3) / 2, lat = (b0 + b2) / 2\<rparr>,
                      isScanning = True, targetTile = Some tile\<rparr>,
       timers := timers c @ [(D, ScanDone tile)]\<rparr>"
    using assms by (rule processNextTile_start)
  then show ?thesis by auto
qed

theorem center_from_bbox_witness:
  "position (droneState (ws_onmessage 2000 (Some (new_tile_message tile_A)) (initial_client sample_url)))
     = Some \<lparr>lon = 17.13, lat = 33.045\<rparr>"
proof -
  let ?c = "(initial_client sample_url)\<lparr>tiles := map_set (tile_id tile_A) tile_A [], pendingTiles := [tile_A]\<rparr>"
  have "\<not> processing ?c" and "pendingTiles ?c = tile_A # []"
    and "bbox tile_A = (32.99, 17.08, 33.10, 17.18)"
    by (simp_all add: initial_client_def tile_defs)
  from center_from_bbox [OF this, of 2000]
  show ?thesis
    by (simp add: ws_onmessage_def new_tile_message_def on_new_tile_def initial_client_def)
qed

text \<open>
  C10. An \<^verbatim>\<open>initial\<close> message whose tiles array is empty or absent leaves the known
  tiles, the revealed tiles, the drone state, the pending queue, the processing flag and
  the timers as they were; only the TiTiler URL is set, when the message carries a
  non-empty one.
\<close>

theorem empty_snapshot_changes_nothing:
  assumes "msg_type m = INITIAL" and "msg_tiles m = None \<or> msg_tiles m = Some []"
  shows "ws_onmessage D (Some m) c =
           c\<lparr>titilerUrl := (case msg_titilerUrl m of
                               None \<Rightarrow> titilerUrl c
                             | Some u \<Rightarrow> if u \<noteq> [] then u else titilerUrl c)\<rparr>
    \<and> tiles (ws_onmessage D (Some m) c) = tiles c
    \<and> visibleTiles (ws_onmessage D (Some m) c) = visibleTiles c
    \<and> droneState (ws_onmessage D (Some m) c) = droneState c
    \<and> pendingTiles (ws_onmessage D (Some m) c) = pendingTiles c
    \<and> processing (ws_onmessage D (Some m) c) = processing c
    \<and> timers (ws_onmessage D (Some m) c) = timers c"
  using assms by (auto simp: ws_onmessage_def on_initial_def split: option.split)


theorem empty_snapshot_changes_nothing_witness:
  "ws_onmessage 2000 (Some (snapshot_message [] ''http://tiles:8000'')) mid_animation
     = mid_animation\<lparr>titilerUrl := ''http://tiles:8000''\<rparr>
   \<and> ws_onmessage 2000
        (Some \<lparr>msg_type = INITIAL, msg_tiles = None, msg_tile = None, msg_titilerUrl = None\<rparr>)
        mid_animation
     = mid_animation\<lparr>titilerUrl := titilerUrl mid_animation\<rparr>"
  using empty_snapshot_changes_nothing
      [of "snapshot_message [] ''http://tiles:8000''" 2000 mid_animation]
    empty_snapshot_changes_nothing
      [of "\<lparr>msg_type = INITIAL, msg_tiles = None, msg_tile = None, msg_titilerUrl = None\<rparr>"
          2000 mid_animation]
  by (simp add: snapshot_message_def)

lemma fold_map_set_distinct:
  "distinct (map fst (acc @ ps)) \<Longrightarrow> fold (\<lambda>(k, v) m. map_set k v m) ps acc = acc @ ps"
proof (induction ps arbitrary: acc)
  case Nil
  then show ?case by simp
next
  case (Cons a ps)
  obtain k v where a: "a = (k, v)" by (cases a)
  have "k \<notin> fst ` set acc" using Cons.prems a by auto
  then have 1: "map_set k v acc = acc @ [(k, v)]" by (simp add: map_set_def update_absent)
  have "distinct (map fst ((acc @ [(k, v)]) @ ps))" using Cons.prems a by simp
  then have "fold (\<lambda>(k, v) m. map_set k v m) ps (acc @ [(k, v)]) = (acc @ [(k, v)]) @ ps"
    by (rule Cons.IH)
  then show ?case using a 1 by simp
qed

lemma new_Map_distinct: "distinct (map fst ps) \<Longrightarrow> new_Map ps = ps"
  using fold_map_set_distinct [of "[]" ps] by (simp add: new_Map_def)

lemma update_keys: "fst ` set (AList.update k v m) = insert k (fst ` set m)"
  by (induction m) auto

lemma fold_map_set_keys:
  "fst ` set (fold (\<lambda>(k, v) m. map_set k v m) ps acc) = fst ` set acc \<union> fst ` set ps"
proof (induction ps arbitrary: acc)
  case Nil
  show ?case by simp
next
  case (Cons a ps)
  obtain k v where a: "a = (k, v)" by (cases a)
  have "fst ` set (map_set k v acc) = insert k (fst ` set acc)"
    by (simp add: map_set_def update_keys)
  then show ?case using Cons.IH [of "map_set k v acc"] a by auto
qed

lemma new_Map_keys: "fst ` set (new_Map ps) = fst ` set ps"
  by (simp add: new_Map_def fold_map_set_keys)

lemma distinct_ids_sorted:
  "distinct (map g (sort_key f xs)) = distinct (map g xs)"
  by (simp add: distinct_map)

lemma on_initial_empty:
  "msg_tiles m = None \<or> msg_tiles m = Some [] \<Longrightarrow>
   on_initial m c = c\<lparr>titilerUrl := (case msg_titilerUrl m of
                               None \<Rightarrow> titilerUrl c
                             | Some u \<Rightarrow> if u \<noteq> [] then u else titilerUrl c)\<rparr>"
  by (auto simp: on_initial_def split: option.split)

lemma on_initial_nonempty:
  assumes "msg_tiles m = Some ts" and "ts \<noteq> []"
  shows "tiles (on_initial m c) = new_Map (map (\<lambda>t. (tile_id t, t)) (sort_key (\<lambda>t. (row t, col t)) ts))"
    and "visibleTiles (on_initial m c) = new_Map (map (\<lambda>t. (tile_id t, t)) (sort_key (\<lambda>t. (row t, col t)) ts))"
    and "isScanning (droneState (on_initial m c)) = False"
    and "targetTile (droneState (on_initial m c)) = Some (last (sort_key (\<lambda>t. (row t, col t)) ts))"
    and "position (droneState (on_initial m c))
          = (case bbox (last (sort_key (\<lambda>t. (row t, col t)) ts)) of
               (b0, b1, b2, b3) \<Rightarrow> Some \<lparr>lon = (b1 + b3) / 2, lat = (b0 + b2) / 2\<rparr>)"
proof -
  obtain x xs where srt: "sort_key (\<lambda>t. (row t, col t)) ts = x # xs"
    using assms(2) by (metis length_sort list.exhaust list.size(3) length_0_conv)
  obtain b0 b1 b2 b3 where bb: "bbox (last (x # xs)) = (b0, b1, b2, b3)"
    by (metis prod_cases4)
  show "tiles (on_initial m c) = new_Map (map (\<lambda>t. (tile_id t, t)) (sort_key (\<lambda>t. (row t, col t)) ts))"
    using assms srt bb by (simp add: on_initial_def Let_def split: option.split)
  show "visibleTiles (on_initial m c) = new_Map (map (\<lambda>t. (tile_id t, t)) (sort_key (\<lambda>t. (row t, col t)) ts))"
    using assms srt bb by (simp add: on_initial_def Let_def split: option.split)
  show "isScanning (droneState (on_initial m c)) = False"
    using assms srt bb by (simp add: on_initial_def Let_def split: option.split)
  show "targetTile (droneState (on_initial m c)) = Some (last (sort_key (\<lambda>t. (row t, col t)) ts))"
    using assms srt bb by (simp add: on_initial_def Let_def split: option.split)
  show "position (droneState (on_initial m c))
          = (case bbox (last (sort_key (\<lambda>t. (row t, col t)) ts)) of
               (b0, b1, b2, b3) \<Rightarrow> Some \<lparr>lon = (b1 + b3) / 2, lat = (b0 + b2) / 2\<rparr>)"
    using assms srt bb by (simp add: on_initial_def Let_def split: option.split)
qed

lemma on_initial_queue:
  "pendingTiles (on_initial m c) = pendingTiles c"
  "processing (on_initial m c) = processing c"
  "timers (on_initial m c) = timers c"
  by (simp_all add: on_initial_def Let_def split: option.split list.split prod.split)

text \<open>
  C5, as the code has it. An \<^verbatim>\<open>initial\<close> message with a non-empty tiles array
  replaces the known tiles and the revealed tiles alike by the map built from the
  snapshot's tiles, sorted by row and column: its keys are the snapshot's ids and, when
  those ids are distinct, its values are exactly the snapshot's tiles. Every snapshot
  tile is revealed without animation, and the drone is put, not scanning, on the last
  sorted tile, at the centre of its bbox (longitude the mean of elements 1 and 3, latitude
  the mean of elements 0 and 2). The pending queue, the processing flag and the timers
  are not touched.
\<close>

theorem snapshot_replaces_tiles:
  assumes "msg_type m = INITIAL" and "msg_tiles m = Some ts" and "ts \<noteq> []"
  shows "tiles (ws_onmessage D (Some m) c)
        = new_Map (map (\<lambda>t. (tile_id t, t)) (sort_key (\<lambda>t. (row t, col t)) ts))
    \<and> visibleTiles (ws_onmessage D (Some m) c) = tiles (ws_onmessage D (Some m) c)
    \<and> fst ` set (tiles (ws_onmessage D (Some m) c)) = tile_id ` set ts
    \<and> (distinct (map tile_id ts) \<longrightarrow>
          map_values (tiles (ws_onmessage D (Some m) c)) = sort_key (\<lambda>t. (row t, col t)) ts
          \<and> set (map_values (tiles (ws_onmessage D (Some m) c))) = set ts
          \<and> map_size (tiles (ws_onmessage D (Some m) c)) = length ts)
    \<and> isScanning (droneState (ws_onmessage D (Some m) c)) = False
    \<and> targetTile (droneState (ws_onmessage D (Some m) c))
        = Some (last (sort_key (\<lambda>t. (row t, col t)) ts))
    \<and> position (droneState (ws_onmessage D (Some m) c))
        = (case bbox (last (sort_key (\<lambda>t. (row t, col t)) ts)) of
             (b0, b1, b2, b3) \<Rightarrow> Some \<lparr>lon = (b1 + b3) / 2, lat = (b0 + b2) / 2\<rparr>)
    \<and> pendingTiles (ws_onmessage D (Some m) c) = pendingTiles c
    \<and> processing (ws_onmessage D (Some m) c) = processing c
    \<and> timers (ws_onmessage D (Some m) c) = timers c"
proof -
  let ?sorted = "sort_key (\<lambda>t. (row t, col t)) ts"
  let ?c' = "ws_onmessage D (Some m) c"
  have eq: "?c' = on_initial m c" using assms(1) by (simp add: ws_onmessage_def)
  have known: "tiles ?c' = new_Map (map (\<lambda>t. (tile_id t, t)) ?sorted)"
    using on_initial_nonempty(1) [OF assms(2,3)] by (simp add: eq)
  have revealed: "visibleTiles ?c' = tiles ?c'"
    using on_initial_nonempty(1,2) [OF assms(2,3)] by (simp add: eq)
  have keys: "fst ` set (tiles ?c') = tile_id ` set ts"
    by (simp add: known new_Map_keys image_image)
  have exact: "distinct (map tile_id ts) \<longrightarrow>
      map_values (tiles ?c') = ?sorted \<and> set (map_values (tiles ?c')) = set ts
      \<and> map_size (tiles ?c') = length ts"
  proof
    assume "distinct (map tile_id ts)"
    then have "distinct (map fst (map (\<lambda>t. (tile_id t, t)) ?sorted))"
      by (simp add: comp_def distinct_ids_sorted)
    then have "tiles ?c' = map (\<lambda>t. (tile_id t, t)) ?sorted"
      by (simp add: known new_Map_distinct)
    then show "map_values (tiles ?c') = ?sorted \<and> set (map_values (tiles ?c')) = set ts
      \<and> map_size (tiles ?c') = length ts"
      by (simp add: map_values_def map_size_def comp_def)
  qed
  have drone: "isScanning (droneState ?c') = False"
    "targetTile (droneState ?c') = Some (last ?sorted)"
    "position (droneState ?c')
       = (case bbox (last ?sorted) of
            (b0, b1, b2, b3) \<Rightarrow> Some \<lparr>lon = (b1 + b3) / 2, lat = (b0 + b2) / 2\<rparr>)"
    using on_initial_nonempty(3,4,5) [OF assms(2,3)] by (simp_all add: eq)
  have queue: "pendingTiles ?c' = pendingTiles c" "processing ?c' = processing c"
    "timers ?c' = timers c"
    by (simp_all add: eq on_initial_queue)
  show ?thesis using known revealed keys exact drone queue by blast
qed

lemma after_A:
  "ws_onmessage 2000 (Some (new_tile_message tile_A)) (initial_client sample_url) =
     \<lparr>tiles = [(''tile_0_0'', tile_A)], visibleTiles = [], titilerUrl = sample_url,
      droneState = \<lparr>position = Some \<lparr>lon = 17.13, lat = 33.045\<rparr>, isScanning = True,
                    targetTile = Some tile_A\<rparr>,
      pendingTiles = [], processing = True, timers = [(2000, ScanDone tile_A)],
      console = [DroneFlyingTo ''tile_0_0'' 17.13 33.045]\<rparr>"
proof -
  let ?c = "(initial_client sample_url)\<lparr>tiles := map_set (tile_id tile_A) tile_A (tiles (initial_client sample_url)),
      pendingTiles := pendingTiles (initial_client sample_url) @ [tile_A]\<rparr>"
  have "\<not> processing ?c" and "pendingTiles ?c = tile_A # []"
    and "bbox tile_A = (32.99, 17.08, 33.10, 17.18)"
    by (simp_all add: initial_client_def tile_defs)
  from processNextTile_start [OF this, of 2000]
  show ?thesis
    by (simp add: ws_onmessage_def new_tile_message_def on_new_tile_def initial_client_def
          map_set_def tile_defs)
qed

lemma mid_animation_eval:
  "tiles mid_animation = [(''tile_0_0'', tile_A), (''tile_0_1'', tile_B)]"
  "visibleTiles mid_animation = []"
  "pendingTiles mid_animation = [tile_B]"
  "processing mid_animation"
  "timers mid_animation = [(2000, ScanDone tile_A)]"
  "isScanning (droneState mid_animation)"
  "targetTile (droneState mid_animation) = Some tile_A"
  by (simp_all add: mid_animation_def run_client_def after_A)
    (simp_all add: ws_onmessage_def new_tile_message_def on_new_tile_def processNextTile_busy
       map_set_def tile_defs)

theorem snapshot_replaces_tiles_witness:
  "tiles (ws_onmessage 2000 (Some (snapshot_message [tile_B, tile_A] sample_url)) mid_animation)
     = [(''tile_0_0'', tile_A), (''tile_0_1'', tile_B)]
   \<and> visibleTiles (ws_onmessage 2000 (Some (snapshot_message [tile_B, tile_A] sample_url)) mid_animation)
     = [(''tile_0_0'', tile_A), (''tile_0_1'', tile_B)]
   \<and> targetTile (droneState (ws_onmessage 2000 (Some (snapshot_message [tile_B, tile_A] sample_url)) mid_animation))
     = Some tile_B
   \<and> isScanning (droneState (ws_onmessage 2000 (Some (snapshot_message [tile_B, tile_A] sample_url)) mid_animation))
     = False
   \<and> position (droneState (ws_onmessage 2000 (Some (snapshot_message [tile_B, tile_A] sample_url)) mid_animation))
     = Some \<lparr>lon = 17.13, lat = 33.045\<rparr>"
proof -
  have srt: "sort_key (\<lambda>t. (row t, col t)) [tile_B, tile_A] = [tile_A, tile_B]"
    by (simp add: tile_defs)
  have "msg_type (snapshot_message [tile_B, tile_A] sample_url) = INITIAL"
    and "msg_tiles (snapshot_message [tile_B, tile_A] sample_url) = Some [tile_B, tile_A]"
    and "[tile_B, tile_A] \<noteq> []"
    by (simp_all add: snapshot_message_def)
  from snapshot_replaces_tiles [OF this, of 2000 mid_animation]
  show ?thesis
    by (simp add: srt new_Map_def map_set_def tile_defs)
qed

text \<open>
  C5 as stated fails twice. With tiles A and B known, A being scanned and B queued, an
  empty snapshot leaves both known tiles in place; and a snapshot holding A and B reveals
  both but leaves B in the queue and A's scan timer pending.
\<close>

theorem snapshot_counterexample:
  "tiles (ws_onmessage 2000 (Some (snapshot_message [] sample_url)) mid_animation)
     = [(''tile_0_0'', tile_A), (''tile_0_1'', tile_B)]
   \<and> visibleTiles (ws_onmessage 2000 (Some (snapshot_message [tile_A, tile_B] sample_url)) mid_animation)
     = [(''tile_0_0'', tile_A), (''tile_0_1'', tile_B)]
   \<and> pendingTiles (ws_onmessage 2000 (Some (snapshot_message [tile_A, tile_B] sample_url)) mid_animation)
     = [tile_B]
   \<and> timers (ws_onmessage 2000 (Some (snapshot_message [tile_A, tile_B] sample_url)) mid_animation)
     = [(2000, ScanDone tile_A)]"
proof -
  have srt: "sort_key (\<lambda>t. (row t, col t)) [tile_A, tile_B] = [tile_A, tile_B]"
    by (simp add: tile_defs)
  have 1: "ws_onmessage 2000 (Some (snapshot_message [] sample_url)) mid_animation
      = on_initial (snapshot_message [] sample_url) mid_animation"
    by (simp add: ws_onmessage_def snapshot_message_def)
  have 2: "ws_onmessage 2000 (Some (snapshot_message [tile_A, tile_B] sample_url)) mid_animation
      = on_initial (snapshot_message [tile_A, tile_B] sample_url) mid_animation"
    by (simp add: ws_onmessage_def snapshot_message_def)
  have e: "tiles (on_initial (snapshot_message [] sample_url) mid_animation)
      = [(''tile_0_0'', tile_A), (''tile_0_1'', tile_B)]"
    by (simp add: on_initial_empty snapshot_message_def mid_animation_eval)
  have v: "visibleTiles (on_initial (snapshot_message [tile_A, tile_B] sample_url) mid_animation)
      = [(''tile_0_0'', tile_A), (''tile_0_1'', tile_B)]"
    using on_initial_nonempty(2) [of "snapshot_message [tile_A, tile_B] sample_url" "[tile_A, tile_B]" mid_animation]
    by (simp add: snapshot_message_def srt new_Map_def map_set_def tile_defs)
  show ?thesis
    by (simp add: 1 2 e v on_initial_queue mid_animation_eval)
qed

subsection \<open>Events, phases and what each event does\<close>

lemma flown_to_append: "flown_to (xs @ ys) = flown_to xs @ flown_to ys"
  by (induction xs rule: flown_to.induct) simp_all

lemma cycles_snoc: "cycles (ts @ [t]) = cycles ts @ [Scanning (Some t), Idle]"
  by (simp add: cycles_def)

lemma cycles_append: "cycles (xs @ ys) = cycles xs @ cycles ys"
  by (simp add: cycles_def)

lemma last_cycles: "last (Idle # cycles ts) = Idle"
  by (induction ts rule: rev_induct) (simp_all add: cycles_def)

lemma run_client_snoc: "run_client D (es @ [e]) c = client_step D e (run_client D es c)"
  by (simp add: run_client_def)

lemma phases_nonempty: "phases D es c \<noteq> []"
  by (cases es) simp_all

lemma phases_last: "last (phases D es c) = phase_of (droneState (run_client D es c))"
  by (induction es arbitrary: c) (simp_all add: run_client_def phases_nonempty)

lemma phases_snoc:
  "phases D (es @ [e]) c = phases D es c @ [phase_of (droneState (run_client D (es @ [e]) c))]"
  by (induction es arbitrary: c) (simp_all add: run_client_def)

lemma remdups_adj_snoc:
  "xs \<noteq> [] \<Longrightarrow> remdups_adj (xs @ [y]) = (if last xs = y then remdups_adj xs else remdups_adj xs @ [y])"
proof -
  assume "xs \<noteq> []"
  then obtain ys x where xs: "xs = ys @ [x]" by (metis rev_exhaust)
  show ?thesis using remdups_adj_append_two [of ys x y] by (simp add: xs)
qed

lemma transitions_snoc:
  "transitions D (es @ [e]) c =
     observe (transitions D es c) (phase_of (droneState (run_client D (es @ [e]) c)))"
  by (simp add: transitions_def observe_def phases_snoc remdups_adj_snoc phases_nonempty)

lemma transitions_Nil: "transitions D [] c = [phase_of (droneState c)]"
  by (simp add: transitions_def)

text \<open>What each event does.\<close>

lemma step_parse_error:
  "client_step D (Message None) c = c\<lparr>console := console c @ [ErrorParsingMessage]\<rparr>"
  by (simp add: ws_onmessage_def)

lemma step_no_tile:
  "msg_type m = NEW_TILE \<Longrightarrow> msg_tile m = None \<Longrightarrow> client_step D (Message (Some m)) c = c"
  by (simp add: ws_onmessage_def)

lemma step_new_tile:
  "msg_type m = NEW_TILE \<Longrightarrow> msg_tile m = Some t \<Longrightarrow>
   client_step D (Message (Some m)) c = on_new_tile D t c"
  by (simp add: ws_onmessage_def)

lemma on_new_tile_busy:
  "processing c \<Longrightarrow>
   on_new_tile D t c = c\<lparr>tiles := map_set (tile_id t) t (tiles c), pendingTiles := pendingTiles c @ [t]\<rparr>"
  by (simp add: on_new_tile_def processNextTile_busy)

lemma on_new_tile_idle:
  assumes "\<not> processing c" and "pendingTiles c = []" and "bbox t = (b0, b1, b2, b3)"
  shows "on_new_tile D t c =
     c\<lparr>tiles := map_set (tile_id t) t (tiles c), pendingTiles := [], processing := True,
       console := console c @ [DroneFlyingTo (tile_id t) ((b1 + b3) / 2) ((b0 + b2) / 2)],
       droneState := \<lparr>position = Some \<lparr>lon = (b1 + b3) / 2, lat = (b0 + b2) / 2\<rparr>,
                      isScanning = True, targetTile = Some t\<rparr>,
       timers := timers c @ [(D, ScanDone t)]\<rparr>"
proof -
  let ?c1 = "c\<lparr>tiles := map_set (tile_id t) t (tiles c), pendingTiles := pendingTiles c @ [t]\<rparr>"
  have "\<not> processing ?c1" and "pendingTiles ?c1 = t # []" using assms by simp_all
  from processNextTile_start [OF this assms(3), of D]
  show ?thesis by (simp add: on_new_tile_def)
qed

lemma fire_none: "length (timers c) \<le> k \<Longrightarrow> fire_timer D k c = c"
  by (simp add: fire_timer_def)

lemma fire_scan:
  "timers c = [(d, ScanDone t)] \<Longrightarrow>
   fire_timer D 0 c =
     c\<lparr>console := console c @ [ScanningComplete (tile_id t)],
       visibleTiles := map_set (tile_id t) t (visibleTiles c),
       droneState := (droneState c)\<lparr>isScanning := False\<rparr>,
       timers := [(300, SettleDone)]\<rparr>"
  by (simp add: fire_timer_def)

lemma fire_settle_empty:
  "timers c = [(d, SettleDone)] \<Longrightarrow> pendingTiles c = [] \<Longrightarrow>
   fire_timer D 0 c = c\<lparr>timers := [], processing := False\<rparr>"
  by (simp add: fire_timer_def processNextTile_empty)

lemma fire_settle_next:
  assumes "timers c = [(d, SettleDone)]" and "pendingTiles c = t # rest" and "bbox t = (b0, b1, b2, b3)"
  shows "fire_timer D 0 c =
     c\<lparr>processing := True, pendingTiles := rest,
       console := console c @ [DroneFlyingTo (tile_id t) ((b1 + b3) / 2) ((b0 + b2) / 2)],
       droneState := \<lparr>position = Some \<lparr>lon = (b1 + b3) / 2, lat = (b0 + b2) / 2\<rparr>,
                      isScanning = True, targetTile = Some t\<rparr>,
       timers := [(D, ScanDone t)]\<rparr>"
proof -
  let ?c1 = "c\<lparr>timers := [], processing := False\<rparr>"
  have "\<not> processing ?c1" and "pendingTiles ?c1 = t # rest" using assms by simp_all
  from processNextTile_start [OF this assms(3), of D]
  show ?thesis using assms(1) by (simp add: fire_timer_def)
qed

subsection \<open>The queue's situations are kept by every event\<close>

lemma observe_same: "last tr = p \<Longrightarrow> observe tr p = tr"
  by (simp add: observe_def)

lemma observe_new: "last tr \<noteq> p \<Longrightarrow> observe tr p = tr @ [p]"
  by (simp add: observe_def)

lemma queue_inv_last:
  assumes "queue_inv D c arr tr"
  shows "last tr = phase_of (droneState c)"
proof -
  consider (idle) "queue_idle c arr tr"
    | (scanning) finished t where "queue_scanning D c arr tr finished t"
    | (settling) finished where "queue_settling c arr tr finished"
    using assms by (auto simp: queue_inv_def)
  then show ?thesis
  proof cases
    case idle
    then have "tr = Idle # cycles arr" and "\<not> isScanning (droneState c)"
      by (simp_all add: queue_idle_def)
    then show ?thesis by (simp only: last_cycles) (simp add: phase_of_def)
  next
    case scanning
    then show ?thesis by (simp add: queue_scanning_def phase_of_def)
  next
    case settling
    then have "tr = Idle # cycles finished" and "\<not> isScanning (droneState c)"
      by (simp_all add: queue_settling_def)
    then show ?thesis by (simp only: last_cycles) (simp add: phase_of_def)
  qed
qed

lemma inv_nop:
  "queue_inv D c arr tr \<Longrightarrow> queue_inv D c arr (observe tr (phase_of (droneState c)))"
  by (simp add: queue_inv_last observe_same)

lemma inv_console:
  assumes "queue_inv D c arr tr"
  shows "queue_inv D (c\<lparr>console := console c @ [ErrorParsingMessage]\<rparr>) arr
           (observe tr (phase_of (droneState (c\<lparr>console := console c @ [ErrorParsingMessage]\<rparr>))))"
proof -
  have "queue_inv D (c\<lparr>console := console c @ [ErrorParsingMessage]\<rparr>) arr tr"
    using assms
    by (auto simp: queue_inv_def queue_idle_def queue_scanning_def queue_settling_def flown_to_append)
  then show ?thesis by (rule inv_nop)
qed

lemma inv_enqueue:
  assumes "queue_inv D c arr tr"
  shows "queue_inv D (on_new_tile D u c) (arr @ [u])
           (observe tr (phase_of (droneState (on_new_tile D u c))))"
proof -
  consider (idle) "queue_idle c arr tr"
    | (scanning) finished t where "queue_scanning D c arr tr finished t"
    | (settling) finished where "queue_settling c arr tr finished"
    using assms by (auto simp: queue_inv_def)
  then show ?thesis
  proof cases
    case idle
    then have c: "\<not> processing c" "timers c = []" "pendingTiles c = []"
      "flown_to (console c) = map tile_id arr" "tr = Idle # cycles arr"
      by (simp_all add: queue_idle_def)
    obtain b0 b1 b2 b3 where bb: "bbox u = (b0, b1, b2, b3)" by (metis prod_cases4)
    note nt = on_new_tile_idle [OF c(1) c(3) bb, of D]
    have lst: "last tr = Idle" using c(5) by (simp only: last_cycles)
    have ph: "phase_of (droneState (on_new_tile D u c)) = Scanning (Some u)"
      by (simp add: nt phase_of_def)
    have ob: "observe tr (Scanning (Some u)) = tr @ [Scanning (Some u)]"
      using lst by (simp add: observe_new)
    have "queue_scanning D (on_new_tile D u c) (arr @ [u]) (tr @ [Scanning (Some u)]) arr u"
      using c by (simp add: nt queue_scanning_def flown_to_append)
    then show ?thesis unfolding ph ob queue_inv_def by blast
  next
    case scanning
    then have busy: "processing c" by (simp add: queue_scanning_def)
    note nt = on_new_tile_busy [OF busy, of D u]
    have "queue_scanning D (on_new_tile D u c) (arr @ [u]) tr finished t"
      using scanning by (simp add: nt queue_scanning_def)
    then have "queue_inv D (on_new_tile D u c) (arr @ [u]) tr"
      unfolding queue_inv_def by blast
    then show ?thesis by (rule inv_nop)
  next
    case settling
    then have busy: "processing c" by (simp add: queue_settling_def)
    note nt = on_new_tile_busy [OF busy, of D u]
    have "queue_settling (on_new_tile D u c) (arr @ [u]) tr finished"
      using settling by (simp add: nt queue_settling_def)
    then have "queue_inv D (on_new_tile D u c) (arr @ [u]) tr"
      unfolding queue_inv_def by blast
    then show ?thesis by (rule inv_nop)
  qed
qed

lemma inv_fire:
  assumes "queue_inv D c arr tr"
  shows "queue_inv D (fire_timer D k c) arr (observe tr (phase_of (droneState (fire_timer D k c))))"
proof -
  consider (idle) "queue_idle c arr tr"
    | (scanning) finished t where "queue_scanning D c arr tr finished t"
    | (settling) finished where "queue_settling c arr tr finished"
    using assms by (auto simp: queue_inv_def)
  then show ?thesis
  proof cases
    case idle
    then have "fire_timer D k c = c" by (simp add: queue_idle_def fire_none)
    then show ?thesis using assms by (simp add: inv_nop)
  next
    case scanning
    then have c: "timers c = [(D, ScanDone t)]" "arr = finished @ t # pendingTiles c"
      "flown_to (console c) = map tile_id (finished @ [t])"
      "tr = Idle # cycles finished @ [Scanning (Some t)]" "processing c"
      by (simp_all add: queue_scanning_def)
    show ?thesis
    proof (cases k)
      case 0
      note st = fire_scan [OF c(1), of D]
      have ph: "phase_of (droneState (fire_timer D 0 c)) = Idle"
        by (simp add: st phase_of_def)
      have ob: "observe tr Idle = Idle # cycles (finished @ [t])"
        using c(4) by (simp add: observe_new cycles_snoc)
      have "queue_settling (fire_timer D 0 c) arr (Idle # cycles (finished @ [t])) (finished @ [t])"
        using c by (simp add: st queue_settling_def flown_to_append)
      then show ?thesis unfolding 0 ph ob queue_inv_def by blast
    next
      case (Suc n)
      then have "fire_timer D k c = c" using c(1) by (simp add: fire_none)
      then show ?thesis using assms by (simp add: inv_nop)
    qed
  next
    case settling
    then have c: "timers c = [(300, SettleDone)]" "arr = finished @ pendingTiles c"
      "flown_to (console c) = map tile_id finished" "tr = Idle # cycles finished"
      "\<not> isScanning (droneState c)"
      by (simp_all add: queue_settling_def)
    have lst: "last tr = Idle" using c(4) by (simp only: last_cycles)
    show ?thesis
    proof (cases k)
      case 0
      show ?thesis
      proof (cases "pendingTiles c")
        case Nil
        note st = fire_settle_empty [OF c(1) Nil, of D]
        have "queue_idle (fire_timer D 0 c) arr tr"
          using c Nil by (simp add: st queue_idle_def)
        then have "queue_inv D (fire_timer D 0 c) arr tr"
          unfolding queue_inv_def by blast
        then show ?thesis unfolding 0 by (rule inv_nop)
      next
        case (Cons u rest)
        obtain b0 b1 b2 b3 where bb: "bbox u = (b0, b1, b2, b3)" by (metis prod_cases4)
        note st = fire_settle_next [OF c(1) Cons bb, of D]
        have ph: "phase_of (droneState (fire_timer D 0 c)) = Scanning (Some u)"
          by (simp add: st phase_of_def)
        have ob: "observe tr (Scanning (Some u)) = tr @ [Scanning (Some u)]"
          using lst by (simp add: observe_new)
        have "queue_scanning D (fire_timer D 0 c) arr (tr @ [Scanning (Some u)]) finished u"
          using c Cons by (simp add: st queue_scanning_def flown_to_append)
        then show ?thesis unfolding 0 ph ob queue_inv_def by blast
      qed
    next
      case (Suc n)
      then have "fire_timer D k c = c" using c(1) by (simp add: fire_none)
      then show ?thesis using assms by (simp add: inv_nop)
    qed
  qed
qed

lemma queue_inv_step:
  assumes inv: "queue_inv D c arr tr" and ev: "animation_event e"
  shows "queue_inv D (client_step D e c) (arr @ arrival e)
           (observe tr (phase_of (droneState (client_step D e c))))"
proof (cases e)
  case (Timeout k)
  then show ?thesis using inv_fire [OF inv, of k] by simp
next
  case (Message data)
  show ?thesis
  proof (cases data)
    case None
    then show ?thesis using inv_console [OF inv] Message by (simp add: ws_onmessage_def)
  next
    case (Some m)
    then have ty: "msg_type m = NEW_TILE" using ev Message by simp
    show ?thesis
    proof (cases "msg_tile m")
      case None
      then show ?thesis using inv_nop [OF inv] Message Some ty by (simp add: ws_onmessage_def)
    next
      case (Some u)
      then show ?thesis using inv_enqueue [OF inv, of u] Message \<open>data = Some m\<close> ty
        by (simp add: ws_onmessage_def)
    qed
  qed
qed

lemma queue_inv_initial: "queue_inv D (initial_client url) [] (transitions D [] (initial_client url))"
  by (simp add: queue_inv_def queue_idle_def initial_client_def transitions_Nil phase_of_def cycles_def)

lemma queue_inv_run:
  "\<forall>e \<in> set es. animation_event e \<Longrightarrow>
   queue_inv D (run_client D es (initial_client url)) (arrivals es)
     (transitions D es (initial_client url))"
proof (induction es rule: rev_induct)
  case Nil
  show ?case using queue_inv_initial [of D url] by (simp add: run_client_def arrivals_def)
next
  case (snoc e es)
  then have "queue_inv D (run_client D es (initial_client url)) (arrivals es)
     (transitions D es (initial_client url))" and "animation_event e" by simp_all
  from queue_inv_step [OF this]
  show ?case by (simp add: run_client_snoc transitions_snoc arrivals_def)
qed

subsection \<open>Draining the queue\<close>

lemma run_client_Cons: "run_client D (e # es) c = run_client D es (client_step D e c)"
  by (simp add: run_client_def)

lemma run_client_append: "run_client D (es @ fs) c = run_client D fs (run_client D es c)"
  by (simp add: run_client_def)

lemma drain_idle:
  "\<not> processing c \<Longrightarrow> timers c = [] \<Longrightarrow> \<not> processing (run_client D (replicate n (Timeout 0)) c)"
  by (induction n) (simp_all add: run_client_def fire_none)

lemma drain_busy:
  "(\<forall>c n. processing c \<longrightarrow> timers c = [(300, SettleDone)] \<longrightarrow> length (pendingTiles c) = m
        \<longrightarrow> 2 * m + 1 \<le> n \<longrightarrow> \<not> processing (run_client D (replicate n (Timeout 0)) c))
   \<and> (\<forall>c n t. processing c \<longrightarrow> timers c = [(D, ScanDone t)] \<longrightarrow> length (pendingTiles c) = m
        \<longrightarrow> 2 * m + 2 \<le> n \<longrightarrow> \<not> processing (run_client D (replicate n (Timeout 0)) c))"
proof (induction m)
  case 0
  have settle: "\<not> processing (run_client D (replicate n (Timeout 0)) c)"
    if h1: "processing c" and h2: "timers c = [(300, SettleDone)]" and h3: "length (pendingTiles c) = 0" and h4: "1 \<le> n"
    for c n
  proof -
    obtain n' where n: "n = Suc n'" using h4 by (cases n) simp_all
    have p: "pendingTiles c = []" using h3 by simp
    note st = fire_settle_empty [OF h2 p, of D]
    have "\<not> processing (run_client D (replicate n' (Timeout 0)) (fire_timer D 0 c))"
      by (rule drain_idle) (simp_all add: st)
    then show ?thesis by (simp add: n run_client_Cons)
  qed
  have scan: "\<not> processing (run_client D (replicate n (Timeout 0)) c)"
    if h1: "processing c" and h2: "timers c = [(D, ScanDone t)]" and h3: "length (pendingTiles c) = 0" and h4: "2 \<le> n"
    for c n t
  proof -
    obtain n' where n: "n = Suc n'" and n': "1 \<le> n'" using h4 by (cases n) simp_all
    note st = fire_scan [OF h2, of D]
    have "\<not> processing (run_client D (replicate n' (Timeout 0)) (fire_timer D 0 c))"
      by (rule settle) (use n' h1 h2 h3 in \<open>simp_all add: st\<close>)
    then show ?thesis by (simp add: n run_client_Cons)
  qed
  show ?case using settle scan by simp
next
  case (Suc m)
  have scan_m: "\<not> processing (run_client D (replicate n (Timeout 0)) c)"
    if h1: "processing c" and h2: "timers c = [(D, ScanDone t)]" and h3: "length (pendingTiles c) = m" and h4: "2 * m + 2 \<le> n"
    for c n t
    using Suc.IH h1 h2 h3 h4 by blast
  have settle: "\<not> processing (run_client D (replicate n (Timeout 0)) c)"
    if h1: "processing c" and h2: "timers c = [(300, SettleDone)]" and h3: "length (pendingTiles c) = Suc m" and h4: "2 * Suc m + 1 \<le> n"
    for c n
  proof -
    obtain n' where n: "n = Suc n'" and n': "2 * m + 2 \<le> n'" using h4 by (cases n) simp_all
    obtain u rest where p: "pendingTiles c = u # rest" and r: "length rest = m"
      using h3 by (cases "pendingTiles c") simp_all
    obtain b0 b1 b2 b3 where bb: "bbox u = (b0, b1, b2, b3)" by (metis prod_cases4)
    note st = fire_settle_next [OF h2 p bb, of D]
    have "\<not> processing (run_client D (replicate n' (Timeout 0)) (fire_timer D 0 c))"
      by (rule scan_m [of _ u]) (use n' r in \<open>simp_all add: st\<close>)
    then show ?thesis by (simp add: n run_client_Cons)
  qed
  have scan: "\<not> processing (run_client D (replicate n (Timeout 0)) c)"
    if h1: "processing c" and h2: "timers c = [(D, ScanDone t)]" and h3: "length (pendingTiles c) = Suc m" and h4: "2 * Suc m + 2 \<le> n"
    for c n t
  proof -
    obtain n' where n: "n = Suc n'" and n': "2 * Suc m + 1 \<le> n'" using h4 by (cases n) simp_all
    note st = fire_scan [OF h2, of D]
    have "\<not> processing (run_client D (replicate n' (Timeout 0)) (fire_timer D 0 c))"
      by (rule settle) (use n' h1 h2 h3 in \<open>simp_all add: st\<close>)
    then show ?thesis by (simp add: n run_client_Cons)
  qed
  show ?case using settle scan by simp
qed

lemma queue_inv_drain:
  assumes "queue_inv D c arr tr" and "2 * length (pendingTiles c) + 2 \<le> n"
  shows "\<not> processing (run_client D (replicate n (Timeout 0)) c)"
proof -
  consider (idle) "queue_idle c arr tr"
    | (scanning) finished t where "queue_scanning D c arr tr finished t"
    | (settling) finished where "queue_settling c arr tr finished"
    using assms(1) by (auto simp: queue_inv_def)
  then show ?thesis
  proof cases
    case idle
    then show ?thesis by (simp add: queue_idle_def drain_idle)
  next
    case scanning
    then have "processing c" "timers c = [(D, ScanDone t)]" by (simp_all add: queue_scanning_def)
    then show ?thesis using drain_busy [of "length (pendingTiles c)" D] assms(2) by blast
  next
    case settling
    then have "processing c" "timers c = [(300, SettleDone)]" by (simp_all add: queue_settling_def)
    moreover have "2 * length (pendingTiles c) + 1 \<le> n" using assms(2) by simp
    ultimately show ?thesis using drain_busy [of "length (pendingTiles c)" D] by blast
  qed
qed

lemma queue_inv_facts:
  assumes "queue_inv D c arr tr"
  shows "flown_to (console c) @ map tile_id (pendingTiles c) = map tile_id arr"
    and "prefix tr (Idle # cycles arr)"
    and "\<not> processing c \<longrightarrow> pendingTiles c = [] \<and> tr = Idle # cycles arr"
    and "timers c = [] \<or> (\<exists>t. timers c = [(D, ScanDone t)]) \<or> timers c = [(300, SettleDone)]"
    and "processing c \<longleftrightarrow> timers c \<noteq> []"
    and "isScanning (droneState c) \<longrightarrow> processing c"
    and "length (pendingTiles c) \<le> length arr"
proof -
  consider (idle) "queue_idle c arr tr"
    | (scanning) finished t where "queue_scanning D c arr tr finished t"
    | (settling) finished where "queue_settling c arr tr finished"
    using assms(1) by (auto simp: queue_inv_def)
  note modes = this
  show "flown_to (console c) @ map tile_id (pendingTiles c) = map tile_id arr"
    using modes by cases (simp_all add: queue_idle_def queue_scanning_def queue_settling_def)
  show "prefix tr (Idle # cycles arr)"
    using modes
    by cases (simp_all add: queue_idle_def queue_scanning_def queue_settling_def cycles_append cycles_def)
  show "\<not> processing c \<longrightarrow> pendingTiles c = [] \<and> tr = Idle # cycles arr"
    using modes by cases (simp_all add: queue_idle_def queue_scanning_def queue_settling_def)
  show "timers c = [] \<or> (\<exists>t. timers c = [(D, ScanDone t)]) \<or> timers c = [(300, SettleDone)]"
    using modes by cases (simp_all add: queue_idle_def queue_scanning_def queue_settling_def)
  show "processing c \<longleftrightarrow> timers c \<noteq> []"
    using modes by cases (simp_all add: queue_idle_def queue_scanning_def queue_settling_def)
  show "isScanning (droneState c) \<longrightarrow> processing c"
    using modes by cases (simp_all add: queue_idle_def queue_scanning_def queue_settling_def)
  show "length (pendingTiles c) \<le> length arr"
    using modes by cases (simp_all add: queue_idle_def queue_scanning_def queue_settling_def)
qed

lemma arrivals_timeouts: "arrivals (es @ replicate n (Timeout k)) = arrivals es"
  by (induction n) (simp_all add: arrivals_def replicate_append_same [symmetric] del: replicate_Suc)

subsection \<open>Animation order\<close>

text \<open>
  C6. Start from the initial client and let ChangeEvents arrive and timers fire in any
  order. The ids flown to so far, followed by the ids still queued, are the arrivals in
  their order. The drone's transitions so far are a prefix of Idle, Scanning(first
  arrival), Idle, Scanning(second arrival), Idle and so on, and are all of it once nothing
  is in progress; firing the pending timer twice per arrival and twice more always gets
  there. At most one timer is pending: the scan timer of the tile in progress or the
  300 ms settle timer; while one is pending \<^verbatim>\<open>processNextTile\<close> dequeues nothing, and a
  further ChangeEvent only adds the tile to the known tiles and to the end of the queue.
\<close>

theorem fifo_animation:
  assumes "\<forall>e \<in> set es. animation_event e"
  shows "flown_to (console (run_client D es (initial_client url)))
           @ map tile_id (pendingTiles (run_client D es (initial_client url)))
         = map tile_id (arrivals es)
    \<and> prefix (transitions D es (initial_client url)) (Idle # cycles (arrivals es))
    \<and> (\<not> processing (run_client D es (initial_client url)) \<longrightarrow>
          pendingTiles (run_client D es (initial_client url)) = []
          \<and> transitions D es (initial_client url) = Idle # cycles (arrivals es))
    \<and> transitions D (es @ replicate (2 * length (arrivals es) + 2) (Timeout 0)) (initial_client url)
         = Idle # cycles (arrivals es)
    \<and> (timers (run_client D es (initial_client url)) = []
        \<or> (\<exists>t. timers (run_client D es (initial_client url)) = [(D, ScanDone t)])
        \<or> timers (run_client D es (initial_client url)) = [(300, SettleDone)])
    \<and> (processing (run_client D es (initial_client url))
          \<longleftrightarrow> timers (run_client D es (initial_client url)) \<noteq> [])
    \<and> (isScanning (droneState (run_client D es (initial_client url)))
          \<longrightarrow> processing (run_client D es (initial_client url)))
    \<and> (processing (run_client D es (initial_client url)) \<longrightarrow>
          processNextTile D (run_client D es (initial_client url)) = run_client D es (initial_client url)
          \<and> (\<forall>t. client_step D (Message (Some (new_tile_message t))) (run_client D es (initial_client url))
                = (run_client D es (initial_client url))
                    \<lparr>tiles := map_set (tile_id t) t (tiles (run_client D es (initial_client url))),
                     pendingTiles := pendingTiles (run_client D es (initial_client url)) @ [t]\<rparr>))"
proof -
  let ?c = "run_client D es (initial_client url)"
  define n where "n = 2 * length (arrivals es) + 2"
  let ?es' = "es @ replicate n (Timeout 0)"
  have inv: "queue_inv D ?c (arrivals es) (transitions D es (initial_client url))"
    using assms by (rule queue_inv_run)
  note facts = queue_inv_facts [OF inv]
  have "\<forall>e \<in> set ?es'. animation_event e" using assms by auto
  then have inv': "queue_inv D (run_client D ?es' (initial_client url)) (arrivals ?es')
      (transitions D ?es' (initial_client url))"
    by (rule queue_inv_run)
  have "2 * length (pendingTiles ?c) + 2 \<le> n" using facts(7) by (simp add: n_def)
  then have "\<not> processing (run_client D (replicate n (Timeout 0)) ?c)"
    using inv by (rule queue_inv_drain [rotated])
  then have "\<not> processing (run_client D ?es' (initial_client url))"
    by (simp add: run_client_append)
  then have "transitions D ?es' (initial_client url) = Idle # cycles (arrivals ?es')"
    using queue_inv_facts(3) [OF inv'] by blast
  then have drained: "transitions D (es @ replicate (2 * length (arrivals es) + 2) (Timeout 0))
      (initial_client url) = Idle # cycles (arrivals es)"
    by (simp only: arrivals_timeouts n_def)
  have busy: "processing ?c \<longrightarrow> processNextTile D ?c = ?c
      \<and> (\<forall>t. client_step D (Message (Some (new_tile_message t))) ?c
            = ?c\<lparr>tiles := map_set (tile_id t) t (tiles ?c), pendingTiles := pendingTiles ?c @ [t]\<rparr>)"
    by (simp add: processNextTile_busy ws_onmessage_def new_tile_message_def on_new_tile_busy)
  show ?thesis using facts(1-6) drained busy by blast
qed

theorem fifo_animation_witness:
  "transitions 2000
     ([Message (Some (new_tile_message tile_A)), Message (Some (new_tile_message tile_B)),
       Message (Some (new_tile_message tile_C))] @ replicate 8 (Timeout 0))
     (initial_client sample_url)
   = [Idle, Scanning (Some tile_A), Idle, Scanning (Some tile_B), Idle, Scanning (Some tile_C), Idle]
   \<and> pendingTiles mid_animation = [tile_B]
   \<and> flown_to (console mid_animation) = [''tile_0_0'']
   \<and> droneState (client_step 2000 (Message (Some (new_tile_message tile_C))) mid_animation)
       = droneState mid_animation"
proof -
  let ?es = "[Message (Some (new_tile_message tile_A)), Message (Some (new_tile_message tile_B)),
       Message (Some (new_tile_message tile_C))]"
  let ?fs = "[Message (Some (new_tile_message tile_A)), Message (Some (new_tile_message tile_B))]"
  have 1: "\<forall>e \<in> set ?es. animation_event e" by (simp add: new_tile_message_def)
  have 2: "\<forall>e \<in> set ?fs. animation_event e" by (simp add: new_tile_message_def)
  have a1: "arrivals ?es = [tile_A, tile_B, tile_C]" by (simp add: arrivals_def new_tile_message_def)
  have a2: "arrivals ?fs = [tile_A, tile_B]" by (simp add: arrivals_def new_tile_message_def)
  have m: "run_client 2000 ?fs (initial_client sample_url) = mid_animation"
    by (simp add: mid_animation_def)
  note all = fifo_animation [OF 1, of 2000 sample_url]
  note mid = fifo_animation [OF 2, of 2000 sample_url, unfolded m a2]
  have n: "2 * length [tile_A, tile_B, tile_C] + 2 = 8" by simp
  have "transitions 2000 (?es @ replicate 8 (Timeout 0)) (initial_client sample_url)
      = Idle # cycles [tile_A, tile_B, tile_C]"
    using all [unfolded a1 n] by blast
  then have t: "transitions 2000 (?es @ replicate 8 (Timeout 0)) (initial_client sample_url)
      = [Idle, Scanning (Some tile_A), Idle, Scanning (Some tile_B), Idle, Scanning (Some tile_C), Idle]"
    by (simp only: cycles_def list.map concat.simps append.simps)
  have "flown_to (console mid_animation) @ map tile_id (pendingTiles mid_animation)
      = map tile_id [tile_A, tile_B]"
    using mid by blast
  then have f: "flown_to (console mid_animation) = [''tile_0_0'']"
    by (simp add: mid_animation_eval tile_defs)
  have "client_step 2000 (Message (Some (new_tile_message tile_C))) mid_animation
      = mid_animation\<lparr>tiles := map_set (tile_id tile_C) tile_C (tiles mid_animation),
          pendingTiles := pendingTiles mid_animation @ [tile_C]\<rparr>"
    using mid mid_animation_eval(4) by blast
  then have d: "droneState (client_step 2000 (Message (Some (new_tile_message tile_C))) mid_animation)
      = droneState mid_animation"
    by simp
  show ?thesis using t f d mid_animation_eval(3) by (simp only: simp_thms)
qed

end
